theory Spec2Isabelle
  imports Complex_Main
begin

section \<open>Python strings\<close>

text \<open>
  A text is a \<^typ>\<open>string\<close>; every \<^typ>\<open>char\<close> stands for one code point of a Python
  \<^verbatim>\<open>str\<close> in the range 0..255, so \<^const>\<open>length\<close> counts code points.  The character
  classes below are those of Python 3 on that range: \<^verbatim>\<open>str.isspace\<close> (used by
  \<^verbatim>\<open>strip()\<close>, \<^verbatim>\<open>split()\<close> and the pattern \<^verbatim>\<open>\s\<close>), the word characters of
  the pattern \<^verbatim>\<open>\w\<close>, and \<^verbatim>\<open>str.lower\<close>.
\<close>

definition is_space :: "char \<Rightarrow> bool" where
  "is_space c =
     (let n = (of_char c :: nat)
      in (9 \<le> n \<and> n \<le> 13) \<or> (28 \<le> n \<and> n \<le> 32) \<or> n = 133 \<or> n = 160)"

definition is_nonspace :: "char \<Rightarrow> bool" where
  "is_nonspace c = (\<not> is_space c)"

definition is_digit :: "char \<Rightarrow> bool" where
  "is_digit c = (let n = (of_char c :: nat) in 48 \<le> n \<and> n \<le> 57)"

definition is_ascii_lower :: "char \<Rightarrow> bool" where
  "is_ascii_lower c = (let n = (of_char c :: nat) in 97 \<le> n \<and> n \<le> 122)"

definition is_ascii_upper :: "char \<Rightarrow> bool" where
  "is_ascii_upper c = (let n = (of_char c :: nat) in 65 \<le> n \<and> n \<le> 90)"

definition is_upper :: "char \<Rightarrow> bool" where
  \<comment> \<open>the code points below 256 that \<^verbatim>\<open>str.lower\<close> changes\<close>
  "is_upper c =
     (let n = (of_char c :: nat)
      in (65 \<le> n \<and> n \<le> 90) \<or> (192 \<le> n \<and> n \<le> 214) \<or> (216 \<le> n \<and> n \<le> 222))"

definition is_word :: "char \<Rightarrow> bool" where
  \<comment> \<open>\<^verbatim>\<open>\w\<close> on a \<^verbatim>\<open>str\<close> pattern: alphanumeric code points and the underscore\<close>
  "is_word c =
     (let n = (of_char c :: nat)
      in is_digit c \<or> is_ascii_lower c \<or> is_ascii_upper c \<or> n = 95
         \<or> n = 170 \<or> n = 178 \<or> n = 179 \<or> n = 181 \<or> n = 185 \<or> n = 186
         \<or> (188 \<le> n \<and> n \<le> 190) \<or> (192 \<le> n \<and> n \<le> 214)
         \<or> (216 \<le> n \<and> n \<le> 246) \<or> 248 \<le> n)"

fun lower_char :: "char \<Rightarrow> char" where
  \<comment> \<open>every upper-case code point below 256 has its lower-case form 32 above it (bit 5 set)\<close>
  "lower_char (Char b0 b1 b2 b3 b4 b5 b6 b7) =
     (if is_upper (Char b0 b1 b2 b3 b4 b5 b6 b7) then Char b0 b1 b2 b3 b4 True b6 b7
      else Char b0 b1 b2 b3 b4 b5 b6 b7)"

definition lower :: "string \<Rightarrow> string" where
  "lower s = map lower_char s"

definition strip :: "string \<Rightarrow> string" where
  "strip s = rev (dropWhile is_space (rev (dropWhile is_space s)))"

fun split_from :: "string \<Rightarrow> string \<Rightarrow> string list" where
  \<comment> \<open>\<^verbatim>\<open>str.split()\<close> scanning left to right; the first argument is the token being read\<close>
  "split_from cur [] = (if cur = [] then [] else [cur])"
| "split_from cur (c # cs) =
     (if is_space c then (if cur = [] then split_from [] cs else cur # split_from [] cs)
      else split_from (cur @ [c]) cs)"

definition split :: "string \<Rightarrow> string list" where
  "split s = split_from [] s"

section \<open>Regular expressions\<close>

text \<open>
  The patterns of the module use literals, character classes, \<^verbatim>\<open>+\<close> on a character class,
  the dot, the anchor \<^verbatim>\<open>\A\<close>, concatenation and alternation.  \<^verbatim>\<open>re\<close> matches by
  backtracking: \<open>rmatch r pos s\<close> lists the lengths of the matches of \<open>r\<close> that start at
  position \<open>pos\<close> of the subject, whose text from \<open>pos\<close> on is \<open>s\<close>, in the order in which
  the matcher tries them (left alternative first, longest repetition first); the match that
  \<^verbatim>\<open>re\<close> reports is the first of the list.
\<close>

datatype re =
    Lit char
  | Cls "char \<Rightarrow> bool"
  | ClsPlus "char \<Rightarrow> bool"
  | Dot
  | BeginA
  | Seq re re
  | Alt re re

fun rmatch :: "re \<Rightarrow> nat \<Rightarrow> string \<Rightarrow> nat list" where
  "rmatch (Lit c) pos s = (case s of [] \<Rightarrow> [] | x # _ \<Rightarrow> if x = c then [1] else [])"
| "rmatch (Cls P) pos s = (case s of [] \<Rightarrow> [] | x # _ \<Rightarrow> if P x then [1] else [])"
| "rmatch (ClsPlus P) pos s = rev [1 ..< Suc (length (takeWhile P s))]"
| "rmatch Dot pos s = (case s of [] \<Rightarrow> [] | x # _ \<Rightarrow> if x \<noteq> CHR 0x0A then [1] else [])"
| "rmatch BeginA pos s = (if pos = 0 then [0] else [])"
| "rmatch (Seq a b) pos s =
     concat (map (\<lambda>n. map (\<lambda>m. n + m) (rmatch b (pos + n) (drop n s))) (rmatch a pos s))"
| "rmatch (Alt a b) pos s = rmatch a pos s @ rmatch b pos s"

fun lits :: "string \<Rightarrow> re \<Rightarrow> re" where
  \<comment> \<open>a run of literal characters in front of a pattern\<close>
  "lits [] r = r"
| "lits (c # cs) r = Seq (Lit c) (lits cs r)"

text \<open>
  \<^verbatim>\<open>pattern.sub(repl, s)\<close> replaces the non-overlapping matches from left to right, and
  \<^verbatim>\<open>pattern.findall(s)\<close> lists them.  No pattern of the module matches the empty string;
  at an empty match the model does what Python does when the empty match is the only one at
  that position: the replacement is inserted and the next character copied.
\<close>

function re_sub :: "re \<Rightarrow> string \<Rightarrow> nat \<Rightarrow> string \<Rightarrow> string" where
  "re_sub r repl pos s =
     (case rmatch r pos s of
        [] \<Rightarrow> (case s of [] \<Rightarrow> [] | c # cs \<Rightarrow> c # re_sub r repl (Suc pos) cs)
      | n # _ \<Rightarrow>
          (if n = 0 \<or> s = []
           then (case s of [] \<Rightarrow> repl | c # cs \<Rightarrow> repl @ c # re_sub r repl (Suc pos) cs)
           else repl @ re_sub r repl (pos + n) (drop n s)))"
  by pat_completeness auto
termination
  by (relation "measure (\<lambda>(r, repl, pos, s). length s)") auto

function re_findall :: "re \<Rightarrow> nat \<Rightarrow> string \<Rightarrow> string list" where
  "re_findall r pos s =
     (case rmatch r pos s of
        [] \<Rightarrow> (case s of [] \<Rightarrow> [] | c # cs \<Rightarrow> re_findall r (Suc pos) cs)
      | n # _ \<Rightarrow>
          (if n = 0 \<or> s = []
           then (case s of [] \<Rightarrow> [[]] | c # cs \<Rightarrow> [] # re_findall r (Suc pos) cs)
           else take n s # re_findall r (pos + n) (drop n s)))"
  by pat_completeness auto
termination
  by (relation "measure (\<lambda>(r, pos, s). length s)") auto

declare re_sub.simps [simp del] re_findall.simps [simp del]

definition sub :: "re \<Rightarrow> string \<Rightarrow> string \<Rightarrow> string" where
  "sub r repl s = re_sub r repl 0 s"

definition findall :: "re \<Rightarrow> string \<Rightarrow> string list" where
  "findall r s = re_findall r 0 s"

section \<open>The compiled patterns and the character vocabulary\<close>

definition hashtag_regex :: re where
  \<comment> \<open>\<^verbatim>\<open>\A#\w+|\s#\w+\<close>\<close>
  "hashtag_regex =
     Alt (Seq BeginA (lits ''#'' (ClsPlus is_word))) (Seq (Cls is_space) (lits ''#'' (ClsPlus is_word)))"

definition mention_regex :: re where
  \<comment> \<open>\<^verbatim>\<open>\A@\w+|\s@\w+\<close>\<close>
  "mention_regex =
     Alt (Seq BeginA (lits ''@'' (ClsPlus is_word))) (Seq (Cls is_space) (lits ''@'' (ClsPlus is_word)))"

definition email_regex :: re where
  \<comment> \<open>\<^verbatim>\<open>\S+@\S+.\S+\<close>; the dot is not escaped\<close>
  "email_regex =
     Seq (ClsPlus is_nonspace) (lits ''@'' (Seq (ClsPlus is_nonspace) (Seq Dot (ClsPlus is_nonspace))))"

definition url_regex :: re where
  \<comment> \<open>\<^verbatim>\<open>\Ahttp\S+|\shttp\S+\<close>\<close>
  "url_regex =
     Alt (Seq BeginA (lits ''http'' (ClsPlus is_nonspace)))
         (Seq (Cls is_space) (lits ''http'' (ClsPlus is_nonspace)))"

definition retweet_regex :: re where
  \<comment> \<open>\<^verbatim>\<open>\Art\s|\srt\s\<close>\<close>
  "retweet_regex =
     Alt (Seq BeginA (lits ''rt'' (Cls is_space))) (Seq (Cls is_space) (lits ''rt'' (Cls is_space)))"

definition is_character :: "char \<Rightarrow> bool" where
  \<comment> \<open>the class \<^verbatim>\<open>[@0-9a-zA-Z]\<close>\<close>
  "is_character c = (c = CHR ''@'' \<or> is_digit c \<or> is_ascii_lower c \<or> is_ascii_upper c)"

definition is_noncharacter :: "char \<Rightarrow> bool" where
  "is_noncharacter c = (\<not> is_character c)"

definition noncharacter_regex :: re where
  \<comment> \<open>\<^verbatim>\<open>[^@0-9a-zA-Z]+\<close>\<close>
  "noncharacter_regex = ClsPlus is_noncharacter"

definition multspace_regex :: re where
  \<comment> \<open>\<^verbatim>\<open>\s+\<close>\<close>
  "multspace_regex = ClsPlus is_space"

definition ascii_lowercase :: string where
  "ascii_lowercase = ''abcdefghijklmnopqrstuvwxyz''"

definition digits :: string where
  "digits = ''0123456789''"

definition punctuation :: string where
  "punctuation =
     ''!'' @ [CHR 0x22] @ ''#$%&'' @ [CHR 0x27] @ ''()*+,-./:;<=>?@['' @ [CHR 0x5C] @ '']^_`{|}~''"

definition char_options :: string where
  "char_options = ascii_lowercase @ digits @ punctuation"

section \<open>Text normalizer\<close>

definition clean :: "string \<Rightarrow> string" where
  "clean tweet0 =
     (let tweet = lower tweet0;
          tweet = sub url_regex '' httpurl'' tweet;
          tweet = sub noncharacter_regex '' '' tweet;
          tweet = sub email_regex '' email@address '' tweet;
          tweet = sub mention_regex '' @user'' tweet;
          tweet = sub retweet_regex '' '' tweet;
          tweet = sub multspace_regex '' '' tweet;
          tweet = strip tweet
      in tweet)"

definition hash_clean :: "string \<Rightarrow> string" where
  \<comment> \<open>\<^verbatim>\<open>'#' + clean(h)\<close>\<close>
  "hash_clean h = ''#'' @ clean h"

definition split_hashtags :: "string \<Rightarrow> string \<times> string list" where
  "split_hashtags tweet =
     (let hashtags = findall hashtag_regex tweet;
          hashtags = map hash_clean hashtags;
          hashtags = filter (\<lambda>h. h \<noteq> ''#'') hashtags;
          tweet = sub hashtag_regex [] tweet
      in (tweet, hashtags))"

section \<open>Errors, matrices and the loaded models\<close>

datatype error =
    NameError string
  | UnboundLocalError string
  | ValueError
  | IndexError int int
  | StopIteration
  | ZeroDivisionError

type_synonym matrix = "real list list"

text \<open>
  The module loads two models when it is imported: the word2vec store \<^verbatim>\<open>w2v\<close> (with
  \<^verbatim>\<open>word_d = w2v.layer1_size\<close>) and the MultiLabelBinarizer \<^verbatim>\<open>mlb\<close>.  Either may
  be missing: then \<^verbatim>\<open>w2v\<close> is \<^verbatim>\<open>False\<close> and \<^verbatim>\<open>word_d\<close> is not bound, or
  \<^verbatim>\<open>mlb\<close> is not bound and \<^verbatim>\<open>valid_hashtags\<close> is the empty set.
\<close>

record w2v_model =
  layer1_size :: nat
  vectors :: "string \<Rightarrow> real list option"

record mlb_model =
  \<comment> \<open>the attribute \<^verbatim>\<open>classes_\<close> of the fitted binarizer\<close>
  classes :: "string list"

record env =
  w2v :: "w2v_model option"
  mlb :: "mlb_model option"

definition valid_hashtags :: "env \<Rightarrow> string set" where
  "valid_hashtags e = (case mlb e of Some m \<Rightarrow> set (classes m) | None \<Rightarrow> {})"

definition np_zeros :: "int \<Rightarrow> nat \<Rightarrow> error + matrix" where
  \<comment> \<open>\<^verbatim>\<open>np.zeros((rows, cols))\<close>; numpy rejects a negative dimension\<close>
  "np_zeros rows cols =
     (if rows < 0 then Inl ValueError else Inr (replicate (nat rows) (replicate cols 0)))"

fun index_of :: "'a list \<Rightarrow> 'a \<Rightarrow> nat" where
  \<comment> \<open>\<^verbatim>\<open>str.index\<close>, called only for a character that occurs\<close>
  "index_of [] c = 0"
| "index_of (x # xs) c = (if x = c then 0 else Suc (index_of xs c))"

definition set_entry :: "matrix \<Rightarrow> nat \<Rightarrow> nat \<Rightarrow> real \<Rightarrow> matrix" where
  \<comment> \<open>\<^verbatim>\<open>M[i, j] = v\<close>\<close>
  "set_entry M i j v = M[i := (M ! i)[j := v]]"

definition assign_row :: "matrix \<Rightarrow> nat \<Rightarrow> real list \<Rightarrow> error + matrix" where
  \<comment> \<open>\<^verbatim>\<open>M[i, :] = v\<close>: a vector of the row's length is copied, one of length 1 is broadcast,
      any other is refused by numpy\<close>
  "assign_row M i v =
     (if length v = length (M ! i) then Inr (M[i := v])
      else if length v = 1 then Inr (M[i := replicate (length (M ! i)) (hd v)])
      else Inl ValueError)"

section \<open>Feature encoder\<close>

fun char_loop :: "int \<Rightarrow> nat \<Rightarrow> string \<Rightarrow> matrix \<Rightarrow> matrix" where
  "char_loop max_chars i [] M = M"
| "char_loop max_chars i (c # cs) M =
     (if int i \<ge> max_chars then M
      else char_loop max_chars (Suc i) cs
             (if c \<in> set char_options then set_entry M i (index_of char_options c) 1 else M))"

fun word_loop :: "w2v_model \<Rightarrow> int \<Rightarrow> nat \<Rightarrow> string list \<Rightarrow> matrix \<Rightarrow> error + matrix" where
  "word_loop m max_words i [] M = Inr M"
| "word_loop m max_words i (word # ws) M =
     (if int i \<ge> max_words then Inr M
      else (case vectors m word of
              None \<Rightarrow> word_loop m max_words (Suc i) ws M
            | Some v \<Rightarrow>
                (case assign_row M i v of
                   Inl e \<Rightarrow> Inl e
                 | Inr M' \<Rightarrow> word_loop m max_words (Suc i) ws M')))"

fun chrd_word :: "nat \<Rightarrow> string \<Rightarrow> matrix \<Rightarrow> matrix" where
  "chrd_word i [] M = M"
| "chrd_word i (c # cs) M =
     chrd_word i cs
       (if c \<in> set char_options
        then set_entry M i (index_of char_options c) (M ! i ! index_of char_options c + 1)
        else M)"

fun chrd_loop :: "int \<Rightarrow> nat \<Rightarrow> string list \<Rightarrow> matrix \<Rightarrow> matrix" where
  "chrd_loop max_words i [] M = M"
| "chrd_loop max_words i (word # ws) M =
     (if int i \<ge> max_words then M
      else chrd_loop max_words (Suc i) ws (chrd_word i word M))"

definition text2mat :: "env \<Rightarrow> string \<Rightarrow> string \<Rightarrow> int \<Rightarrow> int \<Rightarrow> error + matrix" where
  "text2mat e text0 mat_type max_chars max_words =
     (let text = strip (lower text0) in
      if mat_type = ''char'' then
        (case np_zeros max_chars (length char_options) of
           Inl err \<Rightarrow> Inl err
         | Inr M \<Rightarrow> Inr (char_loop max_chars 0 text M))
      else if mat_type = ''word'' then
        (let text = clean text in
         case w2v e of
           None \<Rightarrow> Inl (NameError ''word_d'')
         | Some m \<Rightarrow>
             (case np_zeros max_words (layer1_size m) of
                Inl err \<Rightarrow> Inl err
              | Inr M \<Rightarrow> word_loop m max_words 0 (split text) M))
      else if mat_type = ''chrd'' then
        (case np_zeros max_words (length char_options) of
           Inl err \<Rightarrow> Inl err
         | Inr M \<Rightarrow> Inr (chrd_loop max_words 0 (split text) M))
      else Inl (UnboundLocalError ''M''))"

definition text2mat_default :: "env \<Rightarrow> string \<Rightarrow> string \<Rightarrow> error + matrix" where
  \<comment> \<open>the call with the default \<^verbatim>\<open>max_chars=140, max_words=30\<close>\<close>
  "text2mat_default e text mat_type = text2mat e text mat_type 140 30"

section \<open>Tweet sequence\<close>

text \<open>
  A source is a list of strings or a file; a file is taken as the lines that iterating over
  the opened file gives.
\<close>

datatype source = ListSource "string list" | FileSource "string list"

datatype pyval =
    PStr string
  | PStrList "string list"
  | PNum real
  | PVec "real list"
  | PMat matrix
  | PList "pyval list"

record tweet_iterator =
  source :: source
  yield_list :: "string list"
  skip_nohashtag :: bool
  self_length :: "nat option"

definition yw_options :: "string set" where
  "yw_options = {''hashtags'', ''raw_tweet'', ''raw_tweet_nohashtags'', ''tokenized_tweet'',
     ''clean_tweet'', ''word_mat'', ''char_mat'', ''chrd_mat'', ''label''}"

definition TweetIterator_init :: "source \<Rightarrow> bool \<Rightarrow> string list \<Rightarrow> error + tweet_iterator" where
  \<comment> \<open>\<^verbatim>\<open>__init__\<close>: the names that are no options are left out (with a warning), the others
      kept in the order given; \<^verbatim>\<open>self.length = False\<close> is \<^const>\<open>None\<close>.  No statement of
      the constructor raises.\<close>
  "TweetIterator_init src skip yield_args =
     Inr \<lparr>source = src,
          yield_list = filter (\<lambda>yw. yw \<in> yw_options) yield_args,
          skip_nohashtag = skip,
          self_length = None\<rparr>"

definition init_warnings :: "string list \<Rightarrow> string list" where
  "init_warnings yield_args =
     map (\<lambda>yw. ''Can't yield '' @ yw @ '', will skip when iterating'')
       (filter (\<lambda>yw. yw \<notin> yw_options) yield_args)
     @ (if length (filter (\<lambda>yw. yw \<in> yw_options) yield_args) = 0
        then [''No valid options, this iterator won't yield anything''] else [])"

definition mlb_transform :: "mlb_model \<Rightarrow> string list list \<Rightarrow> matrix" where
  \<comment> \<open>\<^verbatim>\<open>mlb.transform\<close> of scikit-learn: one row for each sample, with a 1 in the column of
      every class that the sample holds\<close>
  "mlb_transform b samples =
     map (\<lambda>sample. map (\<lambda>c. if c \<in> set sample then 1 else 0) (classes b)) samples"

definition produce :: "env \<Rightarrow> string \<Rightarrow> string \<Rightarrow> string list \<Rightarrow> string \<Rightarrow> error + pyval option" where
  \<comment> \<open>one turn of the loop of \<^verbatim>\<open>yield_\<close>: what is appended to \<^verbatim>\<open>out\<close> for the name
      \<open>yw\<close>, if anything\<close>
  "produce e text tweet hashtags yw =
     (if yw = ''hashtags'' then Inr (Some (PStrList hashtags))
      else if yw = ''raw_tweet'' then Inr (Some (PStr (strip text)))
      else if yw = ''raw_tweet_nohashtags'' then Inr (Some (PStr tweet))
      else if yw = ''clean_tweet'' then Inr (Some (PStr (clean tweet)))
      else if yw = ''tokenized_tweet'' then Inr (Some (PStrList (split (clean tweet))))
      else if yw = ''word_mat'' then
        (case text2mat_default e tweet ''word'' of Inl err \<Rightarrow> Inl err | Inr M \<Rightarrow> Inr (Some (PMat M)))
      else if yw = ''char_mat'' then
        (case text2mat_default e tweet ''char'' of Inl err \<Rightarrow> Inl err | Inr M \<Rightarrow> Inr (Some (PMat M)))
      else if yw = ''chrd_mat'' then
        (case text2mat_default e tweet ''chrd'' of Inl err \<Rightarrow> Inl err | Inr M \<Rightarrow> Inr (Some (PMat M)))
      else if yw = ''label'' then
        (case mlb e of
           None \<Rightarrow> Inl (NameError ''mlb'')
         | Some b \<Rightarrow> Inr (Some (PMat (mlb_transform b [hashtags]))))
      else Inr None)"

fun yield_loop :: "env \<Rightarrow> string \<Rightarrow> string \<Rightarrow> string list \<Rightarrow> string list \<Rightarrow> error + pyval list" where
  "yield_loop e text tweet hashtags [] = Inr []"
| "yield_loop e text tweet hashtags (yw # yws) =
     (case produce e text tweet hashtags yw of
        Inl err \<Rightarrow> Inl err
      | Inr v \<Rightarrow>
          (case yield_loop e text tweet hashtags yws of
             Inl err \<Rightarrow> Inl err
           | Inr out \<Rightarrow> Inr (case v of None \<Rightarrow> out | Some x \<Rightarrow> x # out)))"

definition known_hashtags :: "env \<Rightarrow> string \<Rightarrow> string list" where
  \<comment> \<open>the hashtags of a text, kept to \<^verbatim>\<open>valid_hashtags\<close> when that set is not empty\<close>
  "known_hashtags e text =
     (let hashtags = snd (split_hashtags text)
      in if valid_hashtags e \<noteq> {} then filter (\<lambda>h. h \<in> valid_hashtags e) hashtags else hashtags)"

definition yield_fields :: "env \<Rightarrow> tweet_iterator \<Rightarrow> string \<Rightarrow> error + pyval list" where
  \<comment> \<open>the method \<^verbatim>\<open>yield_\<close>\<close>
  "yield_fields e ti text =
     (let tweet = fst (split_hashtags text);
          hashtags = known_hashtags e text
      in if length hashtags = 0 \<and> skip_nohashtag ti then Inr []
         else yield_loop e text tweet hashtags (yield_list ti))"

text \<open>
  A generator is the list of what its successive \<^verbatim>\<open>next\<close> calls give: \<open>Inr v\<close> for a value
  that is yielded, \<open>Inl err\<close> for an exception, which ends the generator; after the list the
  generator is exhausted.
\<close>

fun iter_texts :: "env \<Rightarrow> tweet_iterator \<Rightarrow> string list \<Rightarrow> (error + pyval) list" where
  "iter_texts e ti [] = []"
| "iter_texts e ti (text # texts) =
     (case yield_fields e ti text of
        Inl err \<Rightarrow> [Inl err]
      | Inr yw \<Rightarrow>
          (if length yw = 0 then iter_texts e ti texts
           else if length yw = 1 then Inr (yw ! 0) # iter_texts e ti texts
           else Inr (PList yw) # iter_texts e ti texts))"

definition TweetIterator_iter :: "env \<Rightarrow> tweet_iterator \<Rightarrow> (error + pyval) list" where
  "TweetIterator_iter e ti =
     (case source ti of
        ListSource texts \<Rightarrow> iter_texts e ti texts
      | FileSource lines \<Rightarrow> iter_texts e ti lines)"

definition countLines :: "source \<Rightarrow> nat" where
  \<comment> \<open>Modelled from the spec: \<^verbatim>\<open>utils.countLines\<close> is not among the sources; the length
      without skipping is the "number of lines/elements in the raw source".\<close>
  "countLines src = (case src of ListSource texts \<Rightarrow> length texts | FileSource lines \<Rightarrow> length lines)"

fun count_loop :: "(error + pyval) list \<Rightarrow> nat \<Rightarrow> error + nat" where
  \<comment> \<open>\<^verbatim>\<open>for _ in ...: i += 1\<close>\<close>
  "count_loop [] i = Inr i"
| "count_loop (Inl err # _) i = Inl err"
| "count_loop (Inr _ # rest) i = count_loop rest (i + 1)"

definition TweetIterator_len :: "env \<Rightarrow> tweet_iterator \<Rightarrow> (error + nat) \<times> tweet_iterator" where
  \<comment> \<open>\<^verbatim>\<open>__len__\<close>, with the instance after the call\<close>
  "TweetIterator_len e ti =
     (case self_length ti of
        Some n \<Rightarrow> (Inr n, ti)
      | None \<Rightarrow>
          (if skip_nohashtag ti then
             (case TweetIterator_init (source ti) True [''hashtags''] of
                Inl err \<Rightarrow> (Inl err, ti)
              | Inr counter \<Rightarrow>
                  (case count_loop (TweetIterator_iter e counter) 0 of
                     Inl err \<Rightarrow> (Inl err, ti)
                   | Inr i \<Rightarrow> (Inr i, ti\<lparr>self_length := Some i\<rparr>)))
           else (Inr (countLines (source ti)), ti\<lparr>self_length := Some (countLines (source ti))\<rparr>)))"

fun getitem_loop :: "(error + pyval) list \<Rightarrow> int \<Rightarrow> int \<Rightarrow> pyval option \<Rightarrow> error + pyval" where
  \<comment> \<open>\<^verbatim>\<open>while j <= i: t = next(iter_); j += 1\<close> and then \<^verbatim>\<open>return t\<close>\<close>
  "getitem_loop [] j i t =
     (if j \<le> i then Inl StopIteration
      else (case t of None \<Rightarrow> Inl (UnboundLocalError ''t'') | Some v \<Rightarrow> Inr v))"
| "getitem_loop (x # rest) j i t =
     (if j \<le> i then (case x of Inl err \<Rightarrow> Inl err | Inr v \<Rightarrow> getitem_loop rest (j + 1) i (Some v))
      else (case t of None \<Rightarrow> Inl (UnboundLocalError ''t'') | Some v \<Rightarrow> Inr v))"

definition TweetIterator_getitem :: "env \<Rightarrow> tweet_iterator \<Rightarrow> int \<Rightarrow> (error + pyval) \<times> tweet_iterator" where
  \<comment> \<open>\<^verbatim>\<open>__getitem__\<close> for an integer index, with the instance after the call\<close>
  "TweetIterator_getitem e ti i =
     (if i < 0 then
        (case TweetIterator_len e ti of
           (Inl err, ti') \<Rightarrow> (Inl err, ti')
         | (Inr n, ti') \<Rightarrow>
             (if n = 0 then (Inl ZeroDivisionError, ti')
              else (getitem_loop (TweetIterator_iter e ti') 0 (i mod int n) None, ti')))
      else
        (case TweetIterator_len e ti of
           (Inl err, ti') \<Rightarrow> (Inl err, ti')
         | (Inr n, ti') \<Rightarrow>
             (if i \<ge> int n then (Inl (IndexError i (int n)), ti')
              else (getitem_loop (TweetIterator_iter e ti') 0 i None, ti'))))"

section \<open>Batch aggregator\<close>

text \<open>
  \<^verbatim>\<open>np.stack\<close> and \<^verbatim>\<open>np.vstack\<close> are kept as the lists of arrays that they put
  together, one entry for each item of the batch.
\<close>

datatype ndarray = Stack "pyval list" | VStack "pyval list"

type_synonym batch = "ndarray list \<times> ndarray"

record keras_iterator =
  self_tweet_iterator :: tweet_iterator
  self_char :: bool
  self_chrd :: bool
  self_word :: bool
  batch_size :: int

definition KerasIterator_init :: "source \<Rightarrow> int \<Rightarrow> bool \<Rightarrow> bool \<Rightarrow> bool \<Rightarrow> error + keras_iterator" where
  "KerasIterator_init src bsize use_char use_chrd use_word =
     (let mat_types = (if use_char then [''char_mat''] else [])
                      @ (if use_chrd then [''chrd_mat''] else [])
                      @ (if use_word then [''word_mat''] else [])
                      @ [''label'']
      in case TweetIterator_init src True mat_types of
           Inl err \<Rightarrow> Inl err
         | Inr ti \<Rightarrow>
             Inr \<lparr>self_tweet_iterator = ti, self_char = use_char, self_chrd = use_chrd,
                  self_word = use_word, batch_size = bsize\<rparr>)"

record accum =
  output_charX :: "pyval list"
  output_chrdX :: "pyval list"
  output_wordX :: "pyval list"
  output_y :: "pyval list"
  acc_i :: int

definition empty_accum :: accum where
  "empty_accum = \<lparr>output_charX = [], output_chrdX = [], output_wordX = [], output_y = [], acc_i = 0\<rparr>"

definition subscript :: "pyval \<Rightarrow> nat \<Rightarrow> error + pyval" where
  \<comment> \<open>\<^verbatim>\<open>outs[k]\<close> for \<open>k \<ge> 0\<close>\<close>
  "subscript v k =
     (case v of
        PList xs \<Rightarrow> if k < length xs then Inr (xs ! k) else Inl (IndexError (int k) (int (length xs)))
      | PMat M \<Rightarrow> if k < length M then Inr (PVec (M ! k)) else Inl (IndexError (int k) (int (length M)))
      | PVec xs \<Rightarrow> if k < length xs then Inr (PNum (xs ! k)) else Inl (IndexError (int k) (int (length xs)))
      | PStrList xs \<Rightarrow> if k < length xs then Inr (PStr (xs ! k)) else Inl (IndexError (int k) (int (length xs)))
      | PStr xs \<Rightarrow> if k < length xs then Inr (PStr [xs ! k]) else Inl (IndexError (int k) (int (length xs)))
      | PNum x \<Rightarrow> Inl (IndexError (int k) 0))"

definition accumulate :: "keras_iterator \<Rightarrow> accum \<Rightarrow> pyval \<Rightarrow> error + accum" where
  \<comment> \<open>the body of the inner loop up to \<^verbatim>\<open>i += 1\<close>\<close>
  "accumulate ki acc outs =
     (let argout = 0 in
      case (if self_char ki
            then (case subscript outs argout of
                    Inl err \<Rightarrow> Inl err
                  | Inr v \<Rightarrow> Inr (acc\<lparr>output_charX := output_charX acc @ [v]\<rparr>, argout + 1))
            else Inr (acc, argout)) of
        Inl err \<Rightarrow> Inl err
      | Inr (acc, argout) \<Rightarrow>
      case (if self_chrd ki
            then (case subscript outs argout of
                    Inl err \<Rightarrow> Inl err
                  | Inr v \<Rightarrow> Inr (acc\<lparr>output_chrdX := output_chrdX acc @ [v]\<rparr>, argout + 1))
            else Inr (acc, argout)) of
        Inl err \<Rightarrow> Inl err
      | Inr (acc, argout) \<Rightarrow>
      case (if self_word ki
            then (case subscript outs argout of
                    Inl err \<Rightarrow> Inl err
                  | Inr v \<Rightarrow> Inr (acc\<lparr>output_wordX := output_wordX acc @ [v]\<rparr>, argout + 1))
            else Inr (acc, argout)) of
        Inl err \<Rightarrow> Inl err
      | Inr (acc, argout) \<Rightarrow>
      case subscript outs argout of
        Inl err \<Rightarrow> Inl err
      | Inr v \<Rightarrow> Inr (acc\<lparr>output_y := output_y acc @ [v], acc_i := acc_i acc + 1\<rparr>))"

definition make_batch :: "keras_iterator \<Rightarrow> accum \<Rightarrow> batch" where
  \<comment> \<open>\<^verbatim>\<open>out, output_y\<close> as they are yielded\<close>
  "make_batch ki acc =
     ((if self_char ki then [Stack (output_charX acc)] else [])
      @ (if self_chrd ki then [Stack (output_chrdX acc)] else [])
      @ (if self_word ki then [Stack (output_wordX acc)] else []),
      VStack (output_y acc))"

datatype inner_result =
    Yielded batch "(error + pyval) list"
  | Exhausted accum
  | Raised error

fun inner_loop :: "keras_iterator \<Rightarrow> accum \<Rightarrow> (error + pyval) list \<Rightarrow> inner_result" where
  \<comment> \<open>\<^verbatim>\<open>for outs in iter_\<close> from the items that are left, up to the next \<^verbatim>\<open>yield\<close>, the
      end of the pass or an exception\<close>
  "inner_loop ki acc [] = Exhausted acc"
| "inner_loop ki acc (Inl err # rest) = Raised err"
| "inner_loop ki acc (Inr outs # rest) =
     (case accumulate ki acc outs of
        Inl err \<Rightarrow> Raised err
      | Inr acc' \<Rightarrow>
          (if acc_i acc' = batch_size ki then Yielded (make_batch ki acc') rest
           else inner_loop ki acc' rest))"

text \<open>
  The generator of \<^verbatim>\<open>KerasIterator.__iter__\<close> between two \<^verbatim>\<open>next\<close> calls: not started,
  stopped at the \<^verbatim>\<open>yield\<close> of the inner loop (with the items of the pass that are left),
  stopped at the \<^verbatim>\<open>yield\<close> after a pass, or ended by an exception.  When it goes on, the
  accumulators are emptied and \<^verbatim>\<open>i\<close> is 0.  A \<^verbatim>\<open>next\<close> call that never returns is
  \<^const>\<open>None\<close>.
\<close>

datatype kstate = KStart | KInner "(error + pyval) list" | KFlushed | KClosed

partial_function (option) outer_loop ::
  "env \<Rightarrow> keras_iterator \<Rightarrow> accum \<Rightarrow> (error + pyval) list \<Rightarrow> ((error + batch) \<times> kstate) option" where
  "outer_loop e ki acc rest =
     (case inner_loop ki acc rest of
        Yielded b rest' \<Rightarrow> Some (Inr b, KInner rest')
      | Raised err \<Rightarrow> Some (Inl err, KClosed)
      | Exhausted acc' \<Rightarrow>
          (if acc_i acc' > 0 then Some (Inr (make_batch ki acc'), KFlushed)
           else outer_loop e ki acc' (TweetIterator_iter e (self_tweet_iterator ki))))"

definition keras_next :: "env \<Rightarrow> keras_iterator \<Rightarrow> kstate \<Rightarrow> ((error + batch) \<times> kstate) option" where
  "keras_next e ki st =
     (case st of
        KStart \<Rightarrow> outer_loop e ki empty_accum (TweetIterator_iter e (self_tweet_iterator ki))
      | KInner rest \<Rightarrow> outer_loop e ki empty_accum rest
      | KFlushed \<Rightarrow> outer_loop e ki empty_accum (TweetIterator_iter e (self_tweet_iterator ki))
      | KClosed \<Rightarrow> Some (Inl StopIteration, KClosed))"

fun keras_nexts ::
  "env \<Rightarrow> keras_iterator \<Rightarrow> kstate \<Rightarrow> nat \<Rightarrow> ((error + batch) list \<times> kstate) option" where
  \<comment> \<open>the results of \<open>k\<close> successive \<^verbatim>\<open>next\<close> calls, and the generator after them\<close>
  "keras_nexts e ki st 0 = Some ([], st)"
| "keras_nexts e ki st (Suc k) =
     (case keras_next e ki st of
        None \<Rightarrow> None
      | Some (r, st') \<Rightarrow>
          (case keras_nexts e ki st' k of
             None \<Rightarrow> None
           | Some (rs, st'') \<Rightarrow> Some (r # rs, st'')))"

section \<open>Notions used in the statements\<close>

definition no_env :: env where
  \<comment> \<open>the module imported with neither model on disk\<close>
  "no_env = \<lparr>w2v = None, mlb = None\<rparr>"

definition example_store :: w2v_model where
  "example_store = \<lparr>layer1_size = 2, vectors = map_of [(''a'', [1, 2])]\<rparr>"

definition example_env :: env where
  "example_env = \<lparr>w2v = Some example_store, mlb = Some \<lparr>classes = [''#b'', ''#ok'']\<rparr>\<rparr>"

definition zero_row :: "nat \<Rightarrow> real list" where
  "zero_row n = replicate n 0"

definition shape :: "matrix \<Rightarrow> nat \<Rightarrow> nat \<Rightarrow> bool" where
  "shape M r c = (length M = r \<and> list_all (\<lambda>row. length row = c) M)"

definition count_row :: "string \<Rightarrow> real list" where
  \<comment> \<open>the occurrence counts in \<open>w\<close> of the characters of the vocabulary, in its order\<close>
  "count_row w = map (\<lambda>c. of_nat (count_list w c)) char_options"

definition add_rows :: "real list \<Rightarrow> real list \<Rightarrow> real list" where
  "add_rows r1 r2 = map (\<lambda>(x, y). x + y) (zip r1 r2)"

definition one_hot :: "char \<Rightarrow> real list" where
  "one_hot c =
     (if c \<in> set char_options
      then (zero_row (length char_options))[index_of char_options c := 1]
      else zero_row (length char_options))"

definition char_rows :: "string \<Rightarrow> int \<Rightarrow> matrix" where
  "char_rows text max_chars =
     map (\<lambda>k. if k < length text then one_hot (text ! k) else zero_row (length char_options))
       [0 ..< nat max_chars]"

definition word_rows :: "w2v_model \<Rightarrow> string list \<Rightarrow> int \<Rightarrow> matrix" where
  "word_rows m toks max_words =
     map (\<lambda>k. if k < length toks
              then (case vectors m (toks ! k) of Some v \<Rightarrow> v | None \<Rightarrow> zero_row (layer1_size m))
              else zero_row (layer1_size m))
       [0 ..< nat max_words]"

definition chrd_rows :: "string list \<Rightarrow> int \<Rightarrow> matrix" where
  "chrd_rows toks max_words =
     map (\<lambda>k. if k < length toks then count_row (toks ! k) else zero_row (length char_options))
       [0 ..< nat max_words]"

definition chrd_mat_spec :: "string \<Rightarrow> int \<Rightarrow> matrix" where
  \<comment> \<open>the chrd matrix as the specification words it: the rows count the tokens of the
      cleaned text\<close>
  "chrd_mat_spec text max_words = chrd_rows (split (clean text)) max_words"

definition wf_w2v :: "w2v_model \<Rightarrow> bool" where
  \<comment> \<open>every vector of the store has \<^verbatim>\<open>layer1_size\<close> entries\<close>
  "wf_w2v m = (\<forall>w v. vectors m w = Some v \<longrightarrow> length v = layer1_size m)"

definition canonical_fields :: "string list" where
  \<comment> \<open>the field order that the specification lists\<close>
  "canonical_fields = [''hashtags'', ''raw_tweet'', ''raw_tweet_nohashtags'', ''tokenized_tweet'',
     ''clean_tweet'', ''word_mat'', ''char_mat'', ''chrd_mat'', ''label'']"

definition canonical_order :: "string list \<Rightarrow> string list" where
  \<comment> \<open>the requested fields put in the order of the specification\<close>
  "canonical_order yield_args = filter (\<lambda>yw. yw \<in> set yield_args) canonical_fields"

definition source_texts :: "source \<Rightarrow> string list" where
  \<comment> \<open>the texts of a source, in order\<close>
  "source_texts src = (case src of ListSource texts \<Rightarrow> texts | FileSource lines \<Rightarrow> lines)"

definition skipped :: "env \<Rightarrow> tweet_iterator \<Rightarrow> string \<Rightarrow> bool" where
  \<comment> \<open>the test of \<^verbatim>\<open>yield_\<close> that makes it return the empty list\<close>
  "skipped e ti text = (length (known_hashtags e text) = 0 \<and> skip_nohashtag ti)"

definition survives :: "env \<Rightarrow> string \<Rightarrow> bool" where
  \<comment> \<open>a text with at least one known hashtag survives the skip filter\<close>
  "survives e t = (known_hashtags e t \<noteq> [])"

definition seq_length :: "env \<Rightarrow> tweet_iterator \<Rightarrow> nat" where
  \<comment> \<open>the number of texts that survive, or of all texts\<close>
  "seq_length e ti =
     (if skip_nohashtag ti then length (filter (survives e) (source_texts (source ti)))
      else length (source_texts (source ti)))"

definition three_tweets :: source where
  \<comment> \<open>a source of three lines, two of them with a known hashtag\<close>
  "three_tweets = ListSource [''#ok tweet one'', ''no tags here'', ''#ok tweet two'']"

definition array_len :: "ndarray \<Rightarrow> nat" where
  \<comment> \<open>the number of arrays that were put together\<close>
  "array_len a = (case a of Stack xs \<Rightarrow> length xs | VStack xs \<Rightarrow> length xs)"

definition batch_has_size :: "batch \<Rightarrow> nat \<Rightarrow> bool" where
  \<comment> \<open>every array of the batch holds \<open>n\<close> items\<close>
  "batch_has_size b n = list_all (\<lambda>a. array_len a = n) (fst b @ [snd b])"

definition pass_sizes :: "nat \<Rightarrow> nat \<Rightarrow> nat list" where
  \<comment> \<open>\<open>n div B\<close> full batches, and a short one for the \<open>n mod B\<close> items that are left\<close>
  "pass_sizes B n = replicate (n div B) B @ (if n mod B = 0 then [] else [n mod B])"

definition readable :: "keras_iterator \<Rightarrow> pyval \<Rightarrow> bool" where
  \<comment> \<open>the aggregator finds in the item the fields that it reads\<close>
  "readable ki outs = (\<not> isl (accumulate ki empty_accum outs))"

definition acc_inv :: "keras_iterator \<Rightarrow> accum \<Rightarrow> nat \<Rightarrow> bool" where
  \<comment> \<open>\<^verbatim>\<open>i\<close> and the accumulators of the enabled matrix types hold \<open>c\<close> items\<close>
  "acc_inv ki acc c =
     (acc_i acc = int c \<and> length (output_y acc) = c
      \<and> (self_char ki \<longrightarrow> length (output_charX acc) = c)
      \<and> (self_chrd ki \<longrightarrow> length (output_chrdX acc) = c)
      \<and> (self_word ki \<longrightarrow> length (output_wordX acc) = c))"

definition pass_start :: "kstate \<Rightarrow> bool" where
  \<comment> \<open>the states of the generator from which \<^verbatim>\<open>next\<close> begins a pass\<close>
  "pass_start st = (st = KStart \<or> st = KFlushed \<or> st = KInner [])"

definition mat_types :: "bool \<Rightarrow> bool \<Rightarrow> bool \<Rightarrow> string list" where
  \<comment> \<open>the list \<^verbatim>\<open>mat_types\<close> of \<^verbatim>\<open>KerasIterator.__init__\<close>\<close>
  "mat_types use_char use_chrd use_word =
     (if use_char then [''char_mat''] else []) @ (if use_chrd then [''chrd_mat''] else [])
     @ (if use_word then [''word_mat''] else []) @ [''label'']"

definition qualifying :: "env \<Rightarrow> source \<Rightarrow> nat" where
  \<comment> \<open>the number of texts of the source that survive the skip filter\<close>
  "qualifying e src = length (filter (survives e) (source_texts src))"

definition seven_tweets :: source where
  \<comment> \<open>a source with seven qualifying lines and one without a hashtag\<close>
  "seven_tweets = ListSource [''#ok one'', ''#b two'', ''no tags here'', ''#ok three'', ''#ok #b four'',
     ''#b five'', ''#ok six'', ''#ok seven'']"

definition ok_char :: "char \<Rightarrow> bool" where
  \<comment> \<open>the characters of a cleaned text: the space, \<^verbatim>\<open>@\<close>, digits and lower-case letters\<close>
  "ok_char c = (c = CHR '' '' \<or> c = CHR ''@'' \<or> is_digit c \<or> is_ascii_lower c)"

fun single_spaced :: "string \<Rightarrow> bool" where
  \<comment> \<open>no two whitespace characters in a row\<close>
  "single_spaced [] = True"
| "single_spaced [c] = True"
| "single_spaced (a # b # cs) = (\<not> (is_space a \<and> is_space b) \<and> single_spaced (b # cs))"

definition trimmed :: "string \<Rightarrow> bool" where
  \<comment> \<open>no whitespace at either end\<close>
  "trimmed s = (s \<noteq> [] \<longrightarrow> \<not> is_space (hd s) \<and> \<not> is_space (last s))"

definition clean_spec_order :: "string \<Rightarrow> string" where
  \<comment> \<open>\<^verbatim>\<open>clean\<close> with the substitutions in the order that the specification states: the
      email and mention substitutions before the collapse of the other characters\<close>
  "clean_spec_order tweet0 =
     (let tweet = lower tweet0;
          tweet = sub url_regex '' httpurl'' tweet;
          tweet = sub email_regex '' email@address '' tweet;
          tweet = sub mention_regex '' @user'' tweet;
          tweet = sub noncharacter_regex '' '' tweet;
          tweet = sub retweet_regex '' '' tweet;
          tweet = sub multspace_regex '' '' tweet;
          tweet = strip tweet
      in tweet)"

section \<open>Properties of the feature encoder\<close>

lemma index_of_less: "c \<in> set xs \<Longrightarrow> index_of xs c < length xs"
  by (induction xs) auto

lemma nth_index_of: "c \<in> set xs \<Longrightarrow> xs ! index_of xs c = c"
  by (induction xs) auto

lemma index_of_nth: "distinct xs \<Longrightarrow> j < length xs \<Longrightarrow> index_of xs (xs ! j) = j"
  by (induction xs arbitrary: j) (auto simp: nth_Cons split: nat.splits)

lemma distinct_char_options: "distinct char_options"
  by (simp add: char_options_def ascii_lowercase_def digits_def punctuation_def)

lemma length_char_options: "length char_options = 68"
  by (simp add: char_options_def ascii_lowercase_def digits_def punctuation_def)

lemma length_count_row: "length (count_row w) = length char_options"
  by (simp add: count_row_def)

lemma count_row_Cons_in:
  assumes "c \<in> set char_options"
  shows "count_row (c # cs) = (count_row cs)[index_of char_options c := count_row cs ! index_of char_options c + 1]"
proof (rule nth_equalityI)
  show "length (count_row (c # cs)) = length ((count_row cs)[index_of char_options c := count_row cs ! index_of char_options c + 1])"
    by (simp add: count_row_def)
next
  fix k assume "k < length (count_row (c # cs))"
  then have k: "k < length char_options" by (simp add: count_row_def)
  have j: "index_of char_options c < length char_options" using assms by (rule index_of_less)
  show "count_row (c # cs) ! k = (count_row cs)[index_of char_options c := count_row cs ! index_of char_options c + 1] ! k"
  proof (cases "k = index_of char_options c")
    case True
    then have "char_options ! k = c" using assms by (simp add: nth_index_of)
    with True k show ?thesis by (simp add: count_row_def)
  next
    case False
    have "char_options ! k \<noteq> c"
    proof
      assume "char_options ! k = c"
      then have "index_of char_options c = k"
        using index_of_nth [OF distinct_char_options k] by simp
      with False show False by simp
    qed
    with False k show ?thesis by (simp add: count_row_def)
  qed
qed

lemma count_row_Cons_out:
  "c \<notin> set char_options \<Longrightarrow> count_row (c # cs) = count_row cs"
  by (auto simp: count_row_def)

lemma chrd_word_row:
  "i < length M \<Longrightarrow> length (M ! i) = length char_options \<Longrightarrow>
   chrd_word i w M = M[i := add_rows (M ! i) (count_row w)]"
proof (induction w arbitrary: M)
  case Nil
  have "add_rows (M ! i) (count_row []) = M ! i"
    using Nil by (intro nth_equalityI) (auto simp: add_rows_def count_row_def)
  then show ?case by simp
next
  case (Cons c cs)
  show ?case
  proof (cases "c \<in> set char_options")
    case False
    then show ?thesis using Cons by (simp add: count_row_Cons_out)
  next
    case True
    let ?j = "index_of char_options c"
    let ?M = "set_entry M i ?j (M ! i ! ?j + 1)"
    have j: "?j < length char_options" using True by (rule index_of_less)
    have 1: "i < length ?M" using Cons.prems by (simp add: set_entry_def)
    have 2: "length (?M ! i) = length char_options" using Cons.prems by (simp add: set_entry_def)
    have "chrd_word i (c # cs) M = chrd_word i cs ?M" using True by simp
    also have "\<dots> = ?M[i := add_rows (?M ! i) (count_row cs)]" by (rule Cons.IH [OF 1 2])
    also have "\<dots> = M[i := add_rows (?M ! i) (count_row cs)]" by (simp add: set_entry_def)
    also have "add_rows (?M ! i) (count_row cs) = add_rows (M ! i) (count_row (c # cs))"
      using Cons.prems j
      by (intro nth_equalityI)
         (auto simp: add_rows_def set_entry_def count_row_Cons_in [OF True] length_count_row nth_list_update)
    finally show ?thesis .
  qed
qed

lemma shape_zeros: "shape (replicate r (replicate c 0)) r c"
  by (simp add: shape_def list_all_iff)

lemma shape_row: "shape M r c \<Longrightarrow> k < r \<Longrightarrow> length (M ! k) = c"
  by (auto simp: shape_def list_all_length)

lemma shape_update: "shape M r c \<Longrightarrow> length row = c \<Longrightarrow> shape (M[i := row]) r c"
  by (cases "i < length M") (auto simp: shape_def list_all_length nth_list_update)

lemma add_rows_zero: "add_rows (replicate (length char_options) 0) (count_row w) = count_row w"
  by (intro nth_equalityI) (auto simp: add_rows_def length_count_row)

lemma length_add_rows: "length (add_rows a b) = min (length a) (length b)"
  by (simp add: add_rows_def)

lemma chrd_loop_shape:
  "shape M r (length char_options) \<Longrightarrow> max_words \<le> int r \<Longrightarrow>
   shape (chrd_loop max_words i ws M) r (length char_options)"
proof (induction ws arbitrary: i M)
  case Nil
  then show ?case by simp
next
  case (Cons w ws)
  show ?case
  proof (cases "int i \<ge> max_words")
    case True
    then show ?thesis using Cons.prems by simp
  next
    case False
    then have i: "i < r" using Cons.prems by simp
    then have iM: "i < length M" using Cons.prems by (simp add: shape_def)
    have row: "length (M ! i) = length char_options" using Cons.prems i by (simp add: shape_row)
    have "shape (chrd_word i w M) r (length char_options)"
      unfolding chrd_word_row [OF iM row]
      using Cons.prems row by (intro shape_update) (simp_all add: length_add_rows length_count_row)
    then show ?thesis using False Cons.IH Cons.prems by simp
  qed
qed

lemma chrd_loop_nth:
  "shape M r (length char_options) \<Longrightarrow> max_words \<le> int r \<Longrightarrow> k < r \<Longrightarrow>
   chrd_loop max_words i ws M ! k =
     (if i \<le> k \<and> k < i + length ws \<and> int k < max_words
      then add_rows (M ! k) (count_row (ws ! (k - i))) else M ! k)"
proof (induction ws arbitrary: i M)
  case Nil
  then show ?case by auto
next
  case (Cons w ws)
  show ?case
  proof (cases "int i \<ge> max_words")
    case True
    then show ?thesis by auto
  next
    case False
    then have i: "i < r" using Cons.prems by simp
    then have iM: "i < length M" using Cons.prems by (simp add: shape_def)
    have row: "length (M ! i) = length char_options" using Cons.prems i by (simp add: shape_row)
    let ?M = "chrd_word i w M"
    have M': "?M = M[i := add_rows (M ! i) (count_row w)]" by (rule chrd_word_row [OF iM row])
    have sh: "shape ?M r (length char_options)"
      unfolding M' using Cons.prems row
      by (intro shape_update) (simp_all add: length_add_rows length_count_row)
    have "chrd_loop max_words i (w # ws) M ! k = chrd_loop max_words (Suc i) ws ?M ! k"
      using False by simp
    also have "\<dots> = (if Suc i \<le> k \<and> k < Suc i + length ws \<and> int k < max_words
                     then add_rows (?M ! k) (count_row (ws ! (k - Suc i))) else ?M ! k)"
      by (rule Cons.IH [OF sh Cons.prems(2) Cons.prems(3)])
    also have "\<dots> = (if i \<le> k \<and> k < i + length (w # ws) \<and> int k < max_words
                     then add_rows (M ! k) (count_row ((w # ws) ! (k - i))) else M ! k)"
    proof -
      consider "k < i" | "k = i" | "i < k" by linarith
      then show ?thesis
      proof cases
        case 1
        then show ?thesis using iM by (simp add: M')
      next
        case 2
        then show ?thesis using iM False by (simp add: M')
      next
        case 3
        then have "k - i = Suc (k - Suc i)" by simp
        then have "(w # ws) ! (k - i) = ws ! (k - Suc i)" by simp
        then show ?thesis using 3 iM by (simp add: M')
      qed
    qed
    finally show ?thesis .
  qed
qed

lemma text2mat_chrd_rows:
  assumes "0 \<le> max_words"
  shows "text2mat e text ''chrd'' max_chars max_words = Inr (chrd_rows (split (strip (lower text))) max_words)"
proof -
  let ?r = "nat max_words"
  let ?Z = "replicate ?r (replicate (length char_options) (0::real))"
  let ?ws = "split (strip (lower text))"
  have sh: "shape ?Z ?r (length char_options)" by (rule shape_zeros)
  have le: "max_words \<le> int ?r" using assms by simp
  have "chrd_loop max_words 0 ?ws ?Z = chrd_rows ?ws max_words"
  proof (rule nth_equalityI)
    show "length (chrd_loop max_words 0 ?ws ?Z) = length (chrd_rows ?ws max_words)"
      using chrd_loop_shape [OF sh le] by (simp add: shape_def chrd_rows_def)
  next
    fix k assume "k < length (chrd_loop max_words 0 ?ws ?Z)"
    then have k: "k < ?r" using chrd_loop_shape [OF sh le] by (simp add: shape_def)
    show "chrd_loop max_words 0 ?ws ?Z ! k = chrd_rows ?ws max_words ! k"
      using k chrd_loop_nth [OF sh le k, of 0 ?ws]
      by (auto simp: chrd_rows_def add_rows_zero zero_row_def)
  qed
  then show ?thesis using assms by (simp add: text2mat_def np_zeros_def)
qed

lemma char_loop_shape:
  "shape M r c \<Longrightarrow> max_chars \<le> int r \<Longrightarrow> shape (char_loop max_chars i cs M) r c"
proof (induction cs arbitrary: i M)
  case Nil
  then show ?case by simp
next
  case (Cons x cs)
  show ?case
  proof (cases "int i \<ge> max_chars")
    case True
    then show ?thesis using Cons.prems by simp
  next
    case False
    then have i: "i < r" using Cons.prems by simp
    have "shape (set_entry M i j v) r c" for j v
      unfolding set_entry_def using Cons.prems i
      by (intro shape_update) (simp_all add: shape_row)
    then show ?thesis using False Cons.IH Cons.prems by simp
  qed
qed

lemma char_loop_nth:
  "shape M r c \<Longrightarrow> max_chars \<le> int r \<Longrightarrow> k < r \<Longrightarrow>
   char_loop max_chars i cs M ! k =
     (if i \<le> k \<and> k < i + length cs \<and> int k < max_chars \<and> cs ! (k - i) \<in> set char_options
      then (M ! k)[index_of char_options (cs ! (k - i)) := 1] else M ! k)"
proof (induction cs arbitrary: i M)
  case Nil
  then show ?case by auto
next
  case (Cons x cs)
  show ?case
  proof (cases "int i \<ge> max_chars")
    case True
    then show ?thesis by auto
  next
    case False
    then have i: "i < r" using Cons.prems by simp
    then have iM: "i < length M" using Cons.prems by (simp add: shape_def)
    let ?M = "if x \<in> set char_options then set_entry M i (index_of char_options x) 1 else M"
    have sh: "shape ?M r c"
      unfolding set_entry_def using Cons.prems i
      by (auto intro!: shape_update simp: shape_row)
    have "char_loop max_chars i (x # cs) M ! k = char_loop max_chars (Suc i) cs ?M ! k"
      using False by simp
    also have "\<dots> = (if Suc i \<le> k \<and> k < Suc i + length cs \<and> int k < max_chars
                         \<and> cs ! (k - Suc i) \<in> set char_options
                     then (?M ! k)[index_of char_options (cs ! (k - Suc i)) := 1] else ?M ! k)"
      by (rule Cons.IH [OF sh Cons.prems(2) Cons.prems(3)])
    also have "\<dots> = (if i \<le> k \<and> k < i + length (x # cs) \<and> int k < max_chars
                         \<and> (x # cs) ! (k - i) \<in> set char_options
                     then (M ! k)[index_of char_options ((x # cs) ! (k - i)) := 1] else M ! k)"
    proof -
      consider "k < i" | "k = i" | "i < k" by linarith
      then show ?thesis
      proof cases
        case 1
        then show ?thesis using iM by (simp add: set_entry_def)
      next
        case 2
        then show ?thesis using iM False by (simp add: set_entry_def)
      next
        case 3
        then have "k - i = Suc (k - Suc i)" by simp
        then have "(x # cs) ! (k - i) = cs ! (k - Suc i)" by simp
        then show ?thesis using 3 iM by (simp add: set_entry_def)
      qed
    qed
    finally show ?thesis .
  qed
qed

lemma text2mat_char_rows:
  assumes "0 \<le> max_chars"
  shows "text2mat e text ''char'' max_chars max_words = Inr (char_rows (strip (lower text)) max_chars)"
proof -
  let ?r = "nat max_chars"
  let ?Z = "replicate ?r (replicate (length char_options) (0::real))"
  let ?t = "strip (lower text)"
  have sh: "shape ?Z ?r (length char_options)" by (rule shape_zeros)
  have le: "max_chars \<le> int ?r" using assms by simp
  have "char_loop max_chars 0 ?t ?Z = char_rows ?t max_chars"
  proof (rule nth_equalityI)
    show "length (char_loop max_chars 0 ?t ?Z) = length (char_rows ?t max_chars)"
      using char_loop_shape [OF sh le] by (simp add: shape_def char_rows_def)
  next
    fix k assume "k < length (char_loop max_chars 0 ?t ?Z)"
    then have k: "k < ?r" using char_loop_shape [OF sh le] by (simp add: shape_def)
    show "char_loop max_chars 0 ?t ?Z ! k = char_rows ?t max_chars ! k"
      using k char_loop_nth [OF sh le k, of 0 ?t]
      by (auto simp: char_rows_def one_hot_def zero_row_def)
  qed
  then show ?thesis using assms by (simp add: text2mat_def np_zeros_def)
qed

lemma word_loop_ok:
  assumes "wf_w2v m"
  shows "shape M r (layer1_size m) \<Longrightarrow> max_words \<le> int r \<Longrightarrow>
   \<exists>M'. word_loop m max_words i ws M = Inr M' \<and> shape M' r (layer1_size m) \<and>
     (\<forall>k<r. M' ! k =
        (if i \<le> k \<and> k < i + length ws \<and> int k < max_words
         then (case vectors m (ws ! (k - i)) of Some v \<Rightarrow> v | None \<Rightarrow> M ! k) else M ! k))"
proof (induction ws arbitrary: i M)
  case Nil
  then show ?case by auto
next
  case (Cons w ws)
  show ?case
  proof (cases "int i \<ge> max_words")
    case True
    then show ?thesis using Cons.prems by auto
  next
    case False
    then have i: "i < r" using Cons.prems by simp
    then have iM: "i < length M" using Cons.prems by (simp add: shape_def)
    have row: "length (M ! i) = layer1_size m" using Cons.prems i by (simp add: shape_row)
    define M1 where "M1 = (case vectors m w of None \<Rightarrow> M | Some v \<Rightarrow> M[i := v])"
    have step: "word_loop m max_words i (w # ws) M = word_loop m max_words (Suc i) ws M1"
      using False assms row
      by (auto simp: M1_def assign_row_def wf_w2v_def split: option.splits)
    have sh: "shape M1 r (layer1_size m)"
      using Cons.prems assms
      by (auto simp: M1_def wf_w2v_def intro!: shape_update split: option.splits)
    from Cons.IH [OF sh Cons.prems(2), of "Suc i"]
    obtain M' where M': "word_loop m max_words (Suc i) ws M1 = Inr M'"
      "shape M' r (layer1_size m)"
      "\<forall>k<r. M' ! k =
        (if Suc i \<le> k \<and> k < Suc i + length ws \<and> int k < max_words
         then (case vectors m (ws ! (k - Suc i)) of Some v \<Rightarrow> v | None \<Rightarrow> M1 ! k) else M1 ! k)"
      by blast
    have "M' ! k =
        (if i \<le> k \<and> k < i + length (w # ws) \<and> int k < max_words
         then (case vectors m ((w # ws) ! (k - i)) of Some v \<Rightarrow> v | None \<Rightarrow> M ! k) else M ! k)"
      if k: "k < r" for k
    proof -
      consider "k < i" | "k = i" | "i < k" by linarith
      then show ?thesis
      proof cases
        case 1
        then show ?thesis using M'(3) k iM by (auto simp: M1_def split: option.splits)
      next
        case 2
        then show ?thesis using M'(3) k iM False by (auto simp: M1_def split: option.splits)
      next
        case 3
        then have "k - i = Suc (k - Suc i)" by simp
        then have "(w # ws) ! (k - i) = ws ! (k - Suc i)" by simp
        then show ?thesis using 3 M'(3) k iM by (auto simp: M1_def split: option.splits)
      qed
    qed
    then show ?thesis using step M'(1,2) by auto
  qed
qed

lemma text2mat_word_rows:
  assumes "0 \<le> max_words" "w2v e = Some m" "wf_w2v m"
  shows "text2mat e text ''word'' max_chars max_words =
           Inr (word_rows m (split (clean (strip (lower text)))) max_words)"
proof -
  let ?r = "nat max_words"
  let ?Z = "replicate ?r (replicate (layer1_size m) (0::real))"
  let ?ws = "split (clean (strip (lower text)))"
  have sh: "shape ?Z ?r (layer1_size m)" by (rule shape_zeros)
  have le: "max_words \<le> int ?r" using assms by simp
  from word_loop_ok [OF assms(3) sh le, of 0 ?ws]
  obtain M' where M': "word_loop m max_words 0 ?ws ?Z = Inr M'" "shape M' ?r (layer1_size m)"
    "\<forall>k<?r. M' ! k =
        (if 0 \<le> k \<and> k < 0 + length ?ws \<and> int k < max_words
         then (case vectors m (?ws ! (k - 0)) of Some v \<Rightarrow> v | None \<Rightarrow> ?Z ! k) else ?Z ! k)"
    by blast
  have "M' = word_rows m ?ws max_words"
  proof (rule nth_equalityI)
    show "length M' = length (word_rows m ?ws max_words)"
      using M'(2) by (simp add: shape_def word_rows_def)
  next
    fix k assume "k < length M'"
    then have k: "k < ?r" using M'(2) by (simp add: shape_def)
    then show "M' ! k = word_rows m ?ws max_words ! k"
      using M'(3) by (auto simp: word_rows_def zero_row_def split: option.splits)
  qed
  then show ?thesis using assms M'(1) by (simp add: text2mat_def np_zeros_def Let_def)
qed

lemma shape_rows: "shape (map f [0 ..< r]) r c \<longleftrightarrow> (\<forall>k<r. length (f k) = c)"
  by (auto simp: shape_def list_all_iff)

lemma length_one_hot: "length (one_hot c) = length char_options"
  by (simp add: one_hot_def zero_row_def)

lemma count_row_zero:
  assumes "set w \<inter> set char_options = {}"
  shows "count_row w = zero_row (length char_options)"
proof -
  have "count_list w c = 0" if "c \<in> set char_options" for c
    using that assms by (auto simp: count_list_0_iff)
  then show ?thesis
    by (intro nth_equalityI) (simp_all add: count_row_def zero_row_def)
qed

lemma clean_Nil: "clean [] = []"
  by code_simp

lemma split_Nil: "split [] = []"
  by (simp add: split_def)

lemma strip_lower_Nil: "strip (lower []) = []"
  by (simp add: strip_def lower_def)

text \<open>
  C10.  \<^verbatim>\<open>text2mat\<close> assigns its result only for the matrix types \<^verbatim>\<open>'char'\<close>,
  \<^verbatim>\<open>'word'\<close> and \<^verbatim>\<open>'chrd'\<close>: with any other \<^verbatim>\<open>mat_type\<close>, and any text, the call
  fails at \<^verbatim>\<open>return M\<close> because \<^verbatim>\<open>M\<close> was never assigned; no matrix is returned.
\<close>

theorem text2mat_other_type_fails:
  assumes "mat_type \<noteq> ''char''" and "mat_type \<noteq> ''word''" and "mat_type \<noteq> ''chrd''"
  shows "text2mat e text mat_type max_chars max_words = Inl (UnboundLocalError ''M'')"
  using assms by (simp add: text2mat_def)

theorem text2mat_other_type_fails_witness:
  "''bogus'' \<noteq> ''char'' \<and> ''bogus'' \<noteq> ''word'' \<and> ''bogus'' \<noteq> ''chrd''
   \<and> text2mat no_env ''Hello world'' ''bogus'' 140 30 = Inl (UnboundLocalError ''M'')"
  using text2mat_other_type_fails [of "''bogus''" no_env "''Hello world''" 140 30] by simp

text \<open>
  C1, as the claim states it, fails: the rows of the chrd matrix count the tokens of the
  lower-cased and trimmed text as it was passed, not the tokens of the cleaned text.  For
  \<^verbatim>\<open>'a!'\<close> the row counts the \<^verbatim>\<open>!\<close>, which cleaning removes.
\<close>

theorem chrd_counts_cleaned_tokens_counterexample:
  "text2mat no_env ''a!'' ''chrd'' 140 1 \<noteq> Inr (chrd_mat_spec ''a!'' 1)"
  by code_simp

text \<open>
  C1 (amended).  For every text and every \<open>max_words \<ge> 0\<close>, the chrd matrix has \<open>max_words\<close>
  rows; row \<open>i\<close> holds the occurrence counts, for the characters of the vocabulary, of the
  \<open>i\<close>-th whitespace-delimited token of the lower-cased and trimmed text (the text is not
  cleaned); the rows beyond the number of tokens are zero, and tokens beyond \<open>max_words\<close>
  have no row.
\<close>

theorem chrd_counts_raw_tokens:
  assumes "0 \<le> max_words"
  shows "\<exists>M. text2mat e text ''chrd'' max_chars max_words = Inr M
           \<and> length M = nat max_words
           \<and> (\<forall>i<nat max_words.
                 M ! i = (if i < length (split (strip (lower text)))
                          then count_row (split (strip (lower text)) ! i)
                          else zero_row (length char_options)))"
  using text2mat_chrd_rows [OF assms, of e "text" max_chars] by (simp add: chrd_rows_def)

theorem chrd_counts_raw_tokens_witness:
  "(0::int) \<le> 2 \<and>
   (\<exists>M. text2mat no_env ''a! b'' ''chrd'' 140 2 = Inr M
           \<and> length M = nat 2
           \<and> (\<forall>i<nat 2.
                 M ! i = (if i < length (split (strip (lower ''a! b'')))
                          then count_row (split (strip (lower ''a! b'')) ! i)
                          else zero_row (length char_options))))"
proof -
  have h: "(0::int) \<le> 2" by simp
  show ?thesis using h chrd_counts_raw_tokens [OF h, of no_env "''a! b''" 140] by simp
qed

text \<open>
  C7.  For every text, with non-negative declared sizes, each of the three encodings returns
  a matrix (it does not raise) of the declared shape: \<open>(max_chars, W\<^sub>c)\<close> for char,
  \<open>(max_words, W\<^sub>c)\<close> for chrd and, with a loaded embedding store whose vectors have
  \<^verbatim>\<open>layer1_size\<close> entries, \<open>(max_words, layer1_size)\<close> for word.  For the empty text the
  matrix is all zero; a character outside the vocabulary, a word that the store does not
  know, and a token without vocabulary characters give a zero row.
\<close>

theorem text2mat_fixed_shape:
  assumes "0 \<le> max_chars" and "0 \<le> max_words"
  shows "(\<exists>M. text2mat e text ''char'' max_chars max_words = Inr M
            \<and> shape M (nat max_chars) (length char_options)
            \<and> (text = [] \<longrightarrow> M = replicate (nat max_chars) (zero_row (length char_options)))
            \<and> (\<forall>k. k < nat max_chars \<and> k < length (strip (lower text))
                    \<and> strip (lower text) ! k \<notin> set char_options
                  \<longrightarrow> M ! k = zero_row (length char_options)))
       \<and> (\<exists>M. text2mat e text ''chrd'' max_chars max_words = Inr M
            \<and> shape M (nat max_words) (length char_options)
            \<and> (text = [] \<longrightarrow> M = replicate (nat max_words) (zero_row (length char_options)))
            \<and> (\<forall>k. k < nat max_words \<and> k < length (split (strip (lower text)))
                    \<and> set (split (strip (lower text)) ! k) \<inter> set char_options = {}
                  \<longrightarrow> M ! k = zero_row (length char_options)))
       \<and> (\<forall>m. w2v e = Some m \<and> wf_w2v m \<longrightarrow>
            (\<exists>M. text2mat e text ''word'' max_chars max_words = Inr M
               \<and> shape M (nat max_words) (layer1_size m)
               \<and> (text = [] \<longrightarrow> M = replicate (nat max_words) (zero_row (layer1_size m)))
               \<and> (\<forall>k. k < nat max_words \<and> k < length (split (clean (strip (lower text))))
                       \<and> vectors m (split (clean (strip (lower text))) ! k) = None
                     \<longrightarrow> M ! k = zero_row (layer1_size m))))"
proof (intro conjI allI impI)
  let ?t = "strip (lower text)"
  have "shape (char_rows ?t max_chars) (nat max_chars) (length char_options)"
    unfolding char_rows_def shape_rows by (simp add: length_one_hot zero_row_def)
  moreover have "text = [] \<longrightarrow>
      char_rows ?t max_chars = replicate (nat max_chars) (zero_row (length char_options))"
    by (auto simp: char_rows_def strip_lower_Nil intro!: nth_equalityI)
  moreover have "\<forall>k. k < nat max_chars \<and> k < length ?t \<and> ?t ! k \<notin> set char_options
      \<longrightarrow> char_rows ?t max_chars ! k = zero_row (length char_options)"
    by (simp add: char_rows_def one_hot_def)
  ultimately show "\<exists>M. text2mat e text ''char'' max_chars max_words = Inr M
            \<and> shape M (nat max_chars) (length char_options)
            \<and> (text = [] \<longrightarrow> M = replicate (nat max_chars) (zero_row (length char_options)))
            \<and> (\<forall>k. k < nat max_chars \<and> k < length ?t \<and> ?t ! k \<notin> set char_options
                  \<longrightarrow> M ! k = zero_row (length char_options))"
    using text2mat_char_rows [OF assms(1), of e "text" max_words] by blast
next
  let ?ws = "split (strip (lower text))"
  have "shape (chrd_rows ?ws max_words) (nat max_words) (length char_options)"
    unfolding chrd_rows_def shape_rows by (simp add: length_count_row zero_row_def)
  moreover have "text = [] \<longrightarrow>
      chrd_rows ?ws max_words = replicate (nat max_words) (zero_row (length char_options))"
    by (auto simp: chrd_rows_def strip_lower_Nil split_Nil intro!: nth_equalityI)
  moreover have "\<forall>k. k < nat max_words \<and> k < length ?ws \<and> set (?ws ! k) \<inter> set char_options = {}
      \<longrightarrow> chrd_rows ?ws max_words ! k = zero_row (length char_options)"
    by (simp add: chrd_rows_def count_row_zero)
  ultimately show "\<exists>M. text2mat e text ''chrd'' max_chars max_words = Inr M
            \<and> shape M (nat max_words) (length char_options)
            \<and> (text = [] \<longrightarrow> M = replicate (nat max_words) (zero_row (length char_options)))
            \<and> (\<forall>k. k < nat max_words \<and> k < length ?ws \<and> set (?ws ! k) \<inter> set char_options = {}
                  \<longrightarrow> M ! k = zero_row (length char_options))"
    using text2mat_chrd_rows [OF assms(2), of e "text" max_chars] by blast
next
  fix m assume m: "w2v e = Some m \<and> wf_w2v m"
  let ?ws = "split (clean (strip (lower text)))"
  have "shape (word_rows m ?ws max_words) (nat max_words) (layer1_size m)"
    unfolding word_rows_def shape_rows using m
    by (auto simp: zero_row_def wf_w2v_def split: option.splits)
  moreover have "text = [] \<longrightarrow>
      word_rows m ?ws max_words = replicate (nat max_words) (zero_row (layer1_size m))"
    by (auto simp: word_rows_def strip_lower_Nil clean_Nil split_Nil intro!: nth_equalityI)
  moreover have "\<forall>k. k < nat max_words \<and> k < length ?ws \<and> vectors m (?ws ! k) = None
      \<longrightarrow> word_rows m ?ws max_words ! k = zero_row (layer1_size m)"
    by (simp add: word_rows_def)
  ultimately show "\<exists>M. text2mat e text ''word'' max_chars max_words = Inr M
               \<and> shape M (nat max_words) (layer1_size m)
               \<and> (text = [] \<longrightarrow> M = replicate (nat max_words) (zero_row (layer1_size m)))
               \<and> (\<forall>k. k < nat max_words \<and> k < length ?ws \<and> vectors m (?ws ! k) = None
                     \<longrightarrow> M ! k = zero_row (layer1_size m))"
    using text2mat_word_rows [of max_words e m "text" max_chars] assms(2) m by blast
qed

theorem text2mat_fixed_shape_witness:
  "(0::int) \<le> 3 \<and> (0::int) \<le> 2
   \<and> w2v example_env = Some example_store \<and> wf_w2v example_store
   \<and> (\<exists>M. text2mat example_env ''a ~b'' ''char'' 3 2 = Inr M
          \<and> shape M (nat 3) (length char_options))
   \<and> (\<exists>M. text2mat example_env ''a ~b'' ''chrd'' 3 2 = Inr M
          \<and> shape M (nat 2) (length char_options))
   \<and> (\<exists>M. text2mat example_env ''a ~b'' ''word'' 3 2 = Inr M
          \<and> shape M (nat 2) (layer1_size example_store))"
proof -
  have h1: "(0::int) \<le> 3" and h2: "(0::int) \<le> 2" by simp_all
  have e: "w2v example_env = Some example_store" by (simp add: example_env_def)
  have wf: "wf_w2v example_store"
    by (auto simp: wf_w2v_def example_store_def split: if_splits)
  show ?thesis
    using text2mat_fixed_shape [OF h1 h2, of example_env "''a ~b''"] h1 h2 e wf by blast
qed

section \<open>Properties of the tweet sequence\<close>

lemma yield_loop_isl:
  "yw \<in> set yws \<Longrightarrow> isl (produce e text tweet hashtags yw) \<Longrightarrow>
   isl (yield_loop e text tweet hashtags yws)"
  by (induction yws) (auto split: sum.splits)

lemma produce_label_no_mlb: "mlb e = None \<Longrightarrow> isl (produce e text tweet hashtags ''label'')"
  by (simp add: produce_def)

lemma produce_option:
  "yw \<in> yw_options \<Longrightarrow> produce e text tweet hashtags yw = Inr v \<Longrightarrow> v \<noteq> None"
  by (auto simp: produce_def yw_options_def split: if_splits sum.splits option.splits)

lemma yield_loop_values:
  "set yws \<subseteq> yw_options \<Longrightarrow> yield_loop e text tweet hashtags yws = Inr out \<Longrightarrow>
   list_all2 (\<lambda>yw v. produce e text tweet hashtags yw = Inr (Some v)) yws out"
proof (induction yws arbitrary: out)
  case Nil
  then show ?case by simp
next
  case (Cons yw yws)
  from Cons.prems(2) obtain v out' where
    p: "produce e text tweet hashtags yw = Inr v" and
    r: "yield_loop e text tweet hashtags yws = Inr out'" and
    o: "out = (case v of None \<Rightarrow> out' | Some x \<Rightarrow> x # out')"
    by (auto split: sum.splits)
  from p Cons.prems(1) obtain x where x: "v = Some x"
    using produce_option [of yw e "text" tweet hashtags v] by auto
  show ?case using Cons.IH [OF _ r] Cons.prems(1) p x o by simp
qed

text \<open>
  C2, as the claim states it, fails: with no MultiLabelBinarizer loaded, the constructor
  accepts \<^verbatim>\<open>'label'\<close> and returns the sequence; the exception (\<^verbatim>\<open>mlb\<close> is not
  bound) comes when the first item is produced.
\<close>

theorem label_without_encoder_counterexample: "\<not> isl (TweetIterator_init (ListSource [''#ok tweet one'']) False [''label''])
  \<and> TweetIterator_iter no_env (projr (TweetIterator_init (ListSource [''#ok tweet one'']) False [''label'']))
      = [Inl (NameError ''mlb'')]"
  by code_simp

text \<open>
  C2 (amended).  If no MultiLabelBinarizer is loaded, constructing a sequence whose
  requested fields include \<^verbatim>\<open>'label'\<close> succeeds and keeps the field; the failure comes
  during per-item production: producing any item that is not skipped raises, and a skipped
  item produces nothing and does not raise.
\<close>

theorem label_without_encoder_fails_per_item:
  assumes "mlb e = None" and "''label'' \<in> set yield_args"
  shows "\<exists>ti. TweetIterator_init src skip yield_args = Inr ti
           \<and> ''label'' \<in> set (yield_list ti)
           \<and> (\<forall>text. if skipped e ti text then yield_fields e ti text = Inr []
                      else isl (yield_fields e ti text))"
proof -
  let ?ti = "\<lparr>source = src, yield_list = filter (\<lambda>yw. yw \<in> yw_options) yield_args,
          skip_nohashtag = skip, self_length = None\<rparr>"
  have l: "''label'' \<in> set (yield_list ?ti)" using assms(2) by (simp add: yw_options_def)
  have "isl (yield_fields e ?ti t)" if "\<not> skipped e ?ti t" for t
    using that yield_loop_isl [OF l produce_label_no_mlb [OF assms(1)]]
    by (auto simp: yield_fields_def skipped_def Let_def)
  moreover have "yield_fields e ?ti t = Inr []" if "skipped e ?ti t" for t
    using that by (simp add: yield_fields_def skipped_def Let_def)
  ultimately show ?thesis using l by (auto simp: TweetIterator_init_def)
qed

theorem label_without_encoder_fails_per_item_witness:
  "mlb no_env = None \<and> ''label'' \<in> set [''raw_tweet'', ''label'']
   \<and> (\<exists>ti. TweetIterator_init three_tweets True [''raw_tweet'', ''label''] = Inr ti
          \<and> ''label'' \<in> set (yield_list ti)
          \<and> yield_fields no_env ti ''no tags here'' = Inr []
          \<and> isl (yield_fields no_env ti ''#ok tweet one''))"
proof -
  have h1: "mlb no_env = None" by (simp add: no_env_def)
  have h2: "''label'' \<in> set [''raw_tweet'', ''label'']" by simp
  have k1: "known_hashtags no_env ''no tags here'' = []" by code_simp
  have k2: "known_hashtags no_env ''#ok tweet one'' = [''#ok'']" by code_simp
  from label_without_encoder_fails_per_item [OF h1 h2, of three_tweets True]
  obtain ti where ti: "TweetIterator_init three_tweets True [''raw_tweet'', ''label''] = Inr ti"
    "''label'' \<in> set (yield_list ti)"
    "\<forall>t. if skipped no_env ti t then yield_fields no_env ti t = Inr []
         else isl (yield_fields no_env ti t)"
    by blast
  have sk: "skip_nohashtag ti" using ti(1) by (auto simp: TweetIterator_init_def)
  have "yield_fields no_env ti ''no tags here'' = Inr []"
    using ti(3) [rule_format, of "''no tags here''"] sk k1 by (simp add: skipped_def)
  moreover have "isl (yield_fields no_env ti ''#ok tweet one'')"
    using ti(3) [rule_format, of "''#ok tweet one''"] k2 by (simp add: skipped_def)
  ultimately show ?thesis using h1 h2 ti(1,2) by blast
qed

text \<open>
  C3, as the claim states it, fails: the fields of an item come in the order in which the
  caller requested them.  Requested as \<^verbatim>\<open>('clean_tweet', 'hashtags')\<close>, the item is
  (clean tweet, hashtags), while the order of the specification puts the hashtags first.
\<close>

theorem yield_order_counterexample: "TweetIterator_iter no_env
     (projr (TweetIterator_init (ListSource [''a #b'']) False [''clean_tweet'', ''hashtags'']))
     = [Inr (PList [PStr ''a'', PStrList [''#b'']])]
   \<and> canonical_order [''clean_tweet'', ''hashtags''] = [''hashtags'', ''clean_tweet'']
   \<and> TweetIterator_iter no_env
     ((projr (TweetIterator_init (ListSource [''a #b'']) False [''clean_tweet'', ''hashtags'']))
        \<lparr>yield_list := canonical_order [''clean_tweet'', ''hashtags'']\<rparr>)
     = [Inr (PList [PStrList [''#b''], PStr ''a''])]"
  by code_simp

text \<open>
  C3 (amended).  A sequence keeps the valid requested fields in the order of the request
  (names that are no fields are left out).  For every item that is not skipped, the fields
  of the yielded value are the values of those fields, one for each, in that order; with
  exactly one value the bare value is yielded, with two or more the list of them.
\<close>

theorem yield_order_is_request_order:
  assumes "TweetIterator_init src skip yield_args = Inr ti"
  shows "yield_list ti = filter (\<lambda>yw. yw \<in> yw_options) yield_args
       \<and> (\<forall>t out. yield_fields e ti t = Inr out \<and> \<not> skipped e ti t \<longrightarrow>
             list_all2 (\<lambda>yw v. produce e t (fst (split_hashtags t)) (known_hashtags e t) yw = Inr (Some v))
               (yield_list ti) out)
       \<and> (\<forall>t ts out. yield_fields e ti t = Inr out \<and> out \<noteq> [] \<longrightarrow>
             iter_texts e ti (t # ts) =
               (if length out = 1 then Inr (out ! 0) else Inr (PList out)) # iter_texts e ti ts)"
proof -
  have yl: "yield_list ti = filter (\<lambda>yw. yw \<in> yw_options) yield_args"
    using assms by (auto simp: TweetIterator_init_def)
  then have sub: "set (yield_list ti) \<subseteq> yw_options" by auto
  have "list_all2 (\<lambda>yw v. produce e t (fst (split_hashtags t)) (known_hashtags e t) yw = Inr (Some v))
               (yield_list ti) out"
    if "yield_fields e ti t = Inr out" and "\<not> skipped e ti t" for t out
    using that yield_loop_values [OF sub, of e t "fst (split_hashtags t)" "known_hashtags e t" out]
    by (auto simp: yield_fields_def skipped_def Let_def split: if_splits)
  moreover have "iter_texts e ti (t # ts) =
               (if length out = 1 then Inr (out ! 0) else Inr (PList out)) # iter_texts e ti ts"
    if "yield_fields e ti t = Inr out" and "out \<noteq> []" for t ts out
    using that by simp
  ultimately show ?thesis using yl by blast
qed

theorem yield_order_is_request_order_witness:
  "TweetIterator_init (ListSource [''a #b'']) False [''clean_tweet'', ''bogus'', ''hashtags'']
     = Inr \<lparr>source = ListSource [''a #b''], yield_list = [''clean_tweet'', ''hashtags''],
            skip_nohashtag = False, self_length = None\<rparr>
   \<and> iter_texts no_env \<lparr>source = ListSource [''a #b''], yield_list = [''clean_tweet'', ''hashtags''],
            skip_nohashtag = False, self_length = None\<rparr> [''a #b'']
       = [Inr (PList [PStr ''a'', PStrList [''#b'']])]"
proof -
  let ?ti = "\<lparr>source = ListSource [''a #b''], yield_list = [''clean_tweet'', ''hashtags''],
            skip_nohashtag = False, self_length = None\<rparr>"
  have i: "TweetIterator_init (ListSource [''a #b'']) False [''clean_tweet'', ''bogus'', ''hashtags'']
     = Inr ?ti" by code_simp
  have y: "yield_fields no_env ?ti ''a #b'' = Inr [PStr ''a'', PStrList [''#b'']]" by code_simp
  show ?thesis using yield_order_is_request_order [OF i, of no_env] i y by simp
qed

lemma iter_self_length [simp]:
  "TweetIterator_iter e (ti\<lparr>self_length := x\<rparr>) = TweetIterator_iter e ti"
proof -
  have "yield_fields e (ti\<lparr>self_length := x\<rparr>) t = yield_fields e ti t" for t
    by (simp add: yield_fields_def Let_def)
  then have "iter_texts e (ti\<lparr>self_length := x\<rparr>) ts = iter_texts e ti ts" for ts
    by (induction ts) (simp_all split: sum.splits)
  then show ?thesis by (simp add: TweetIterator_iter_def split: source.splits)
qed

lemma count_loop_hashtags:
  assumes "yield_list c = [''hashtags'']" and "skip_nohashtag c"
  shows "count_loop (iter_texts e c ts) i = Inr (i + length (filter (survives e) ts))"
proof (induction ts arbitrary: i)
  case Nil
  then show ?case by simp
next
  case (Cons t ts)
  have "yield_fields e c t =
          (if known_hashtags e t = [] then Inr [] else Inr [PStrList (known_hashtags e t)])"
    using assms by (simp add: yield_fields_def produce_def Let_def)
  then show ?case using Cons.IH by (simp add: survives_def)
qed

lemma TweetIterator_iter_texts: "TweetIterator_iter e ti = iter_texts e ti (source_texts (source ti))"
  by (simp add: TweetIterator_iter_def source_texts_def split: source.splits)

lemma countLines_texts: "countLines src = length (source_texts src)"
  by (simp add: countLines_def source_texts_def split: source.splits)

lemma len_fresh:
  assumes "self_length ti = None"
  shows "TweetIterator_len e ti = (Inr (seq_length e ti), ti\<lparr>self_length := Some (seq_length e ti)\<rparr>)"
proof (cases "skip_nohashtag ti")
  case True
  let ?c = "\<lparr>source = source ti, yield_list = filter (\<lambda>yw. yw \<in> yw_options) [''hashtags''],
          skip_nohashtag = True, self_length = None\<rparr>"
  have yl: "yield_list ?c = [''hashtags'']" by (simp add: yw_options_def)
  have "count_loop (TweetIterator_iter e ?c) 0 = Inr (seq_length e ti)"
    using count_loop_hashtags [OF yl, of e "source_texts (source ti)" 0] True
    by (simp add: TweetIterator_iter_texts seq_length_def)
  then show ?thesis using assms True by (simp add: TweetIterator_len_def TweetIterator_init_def)
next
  case False
  then show ?thesis using assms
    by (simp add: TweetIterator_len_def countLines_texts seq_length_def)
qed

lemma len_cached:
  "self_length ti = Some n \<Longrightarrow> TweetIterator_len e ti = (Inr n, ti)"
  by (simp add: TweetIterator_len_def)

text \<open>
  C5.  The length of a sequence that has not computed it yet is, with skipping, the number
  of texts of the source that survive the skip filter (found by a pass that counts them)
  and, without skipping, the number of lines or elements of the source.  The call stores
  the length in the instance, and a later call returns the stored number without looking at
  the source again.  For a source of three lines of which two carry a known hashtag the
  length is 2 with skipping and 3 without.
\<close>

theorem len_strategies:
  assumes "self_length ti = None"
  shows "fst (TweetIterator_len e ti) =
           Inr (if skip_nohashtag ti then length (filter (survives e) (source_texts (source ti)))
                else length (source_texts (source ti)))
       \<and> (\<forall>n ti'. TweetIterator_len e ti = (Inr n, ti') \<longrightarrow>
             self_length ti' = Some n
           \<and> (\<forall>src. TweetIterator_len e (ti'\<lparr>source := src\<rparr>) = (Inr n, ti'\<lparr>source := src\<rparr>)))"
  using len_fresh [OF assms, of e] by (auto simp: seq_length_def len_cached)

theorem len_strategies_witness:
  "self_length \<lparr>source = three_tweets, yield_list = [''raw_tweet''], skip_nohashtag = True, self_length = None\<rparr> = None
   \<and> self_length \<lparr>source = three_tweets, yield_list = [''raw_tweet''], skip_nohashtag = False, self_length = None\<rparr> = None
   \<and> fst (TweetIterator_len example_env
        \<lparr>source = three_tweets, yield_list = [''raw_tweet''], skip_nohashtag = True, self_length = None\<rparr>) = Inr 2
   \<and> fst (TweetIterator_len example_env
        \<lparr>source = three_tweets, yield_list = [''raw_tweet''], skip_nohashtag = False, self_length = None\<rparr>) = Inr 3"
proof -
  have f: "filter (survives example_env) [''#ok tweet one'', ''no tags here'', ''#ok tweet two'']
             = [''#ok tweet one'', ''#ok tweet two'']"
    by code_simp
  show ?thesis
    using f
      len_strategies [of "\<lparr>source = three_tweets, yield_list = [''raw_tweet''], skip_nohashtag = True, self_length = None\<rparr>" example_env]
      len_strategies [of "\<lparr>source = three_tweets, yield_list = [''raw_tweet''], skip_nohashtag = False, self_length = None\<rparr>" example_env]
    by (simp add: source_texts_def three_tweets_def)
qed

lemma getitem_loop_nth:
  "j \<le> i \<Longrightarrow> nat (i - j) < length vs \<Longrightarrow>
   getitem_loop (map Inr vs) j i t = Inr (vs ! nat (i - j))"
proof (induction vs arbitrary: j t)
  case Nil
  then show ?case by simp
next
  case (Cons v vs)
  show ?case
  proof (cases "j + 1 \<le> i")
    case True
    then have "nat (i - j) = Suc (nat (i - (j + 1)))" by simp
    moreover have "nat (i - (j + 1)) < length vs" using Cons.prems True by simp
    ultimately show ?thesis using Cons.IH [OF True, of "Some v"] Cons.prems(1) by simp
  next
    case False
    then have "i = j" using Cons.prems by simp
    then show ?thesis by (cases vs) simp_all
  qed
qed

lemma getitem_loop_error:
  "getitem_loop its j i t = Inl err \<Longrightarrow>
   err = StopIteration \<or> err = UnboundLocalError ''t'' \<or> Inl err \<in> set its"
proof (induction its arbitrary: j t)
  case Nil
  then show ?case by (auto split: if_splits option.splits)
next
  case (Cons x its)
  then show ?case by (auto split: if_splits option.splits sum.splits)
qed

lemma word_loop_error:
  "word_loop m max_words i ws M = Inl err \<Longrightarrow> err = ValueError"
  by (induction ws arbitrary: i M)
     (auto simp: assign_row_def split: if_splits option.splits sum.splits)

lemma text2mat_error:
  "text2mat e t mat_type max_chars max_words = Inl err \<Longrightarrow>
   err = ValueError \<or> err = NameError ''word_d'' \<or> err = UnboundLocalError ''M''"
  by (auto simp: text2mat_def np_zeros_def Let_def dest: word_loop_error
      split: if_splits option.splits sum.splits)

lemma produce_error:
  "produce e t tweet hashtags yw = Inl err \<Longrightarrow>
   err = ValueError \<or> err = NameError ''word_d'' \<or> err = UnboundLocalError ''M''
   \<or> err = NameError ''mlb''"
  by (auto simp: produce_def text2mat_default_def dest: text2mat_error
      split: if_splits option.splits sum.splits)

lemma yield_loop_error:
  "yield_loop e t tweet hashtags yws = Inl err \<Longrightarrow>
   err = ValueError \<or> err = NameError ''word_d'' \<or> err = UnboundLocalError ''M''
   \<or> err = NameError ''mlb''"
proof (induction yws)
  case Nil
  then show ?case by simp
next
  case (Cons yw yws)
  then show ?case using produce_error [of e t tweet hashtags yw err]
    by (auto split: sum.splits)
qed

lemma iter_texts_error:
  "Inl err \<in> set (iter_texts e ti ts) \<Longrightarrow>
   err = ValueError \<or> err = NameError ''word_d'' \<or> err = UnboundLocalError ''M''
   \<or> err = NameError ''mlb''"
proof (induction ts)
  case Nil
  then show ?case by simp
next
  case (Cons t ts)
  then show ?case
    using yield_loop_error [of e t "fst (split_hashtags t)" "known_hashtags e t" "yield_list ti" err]
    by (auto simp: yield_fields_def Let_def split: sum.splits if_splits)
qed

lemma len_result:
  assumes "fst (TweetIterator_len e ti) = Inr n"
  shows "\<exists>x. TweetIterator_len e ti = (Inr n, ti\<lparr>self_length := x\<rparr>)"
proof (cases "self_length ti")
  case None
  from len_fresh [OF None, of e] assms show ?thesis by auto
next
  case (Some k)
  have "ti\<lparr>self_length := Some k\<rparr> = ti" using Some by simp
  then show ?thesis using len_cached [OF Some, of e] assms by (metis fst_conv)
qed

text \<open>
  C6.  For a sequence whose length is \<open>L > 0\<close>: indexing with a negative index \<open>i\<close> gives what
  indexing with \<open>i mod L\<close> gives, it never raises the index-out-of-range condition, and it
  returns the element at \<open>i mod L\<close> when iterating the sequence yields its \<open>L\<close> elements;
  indexing with \<open>i \<ge> L\<close> raises \<^verbatim>\<open>IndexError\<close> with the index and the length; and
  iterating never raises an \<^verbatim>\<open>IndexError\<close>.
\<close>

theorem getitem_wraparound:
  assumes "fst (TweetIterator_len e ti) = Inr L" and "0 < L"
  shows "(\<forall>i<0. fst (TweetIterator_getitem e ti i) = fst (TweetIterator_getitem e ti (i mod int L)))
       \<and> (\<forall>i<0. \<forall>a b. fst (TweetIterator_getitem e ti i) \<noteq> Inl (IndexError a b))
       \<and> (\<forall>i<0. \<forall>vs. TweetIterator_iter e ti = map Inr vs \<and> length vs = L \<longrightarrow>
             fst (TweetIterator_getitem e ti i) = Inr (vs ! nat (i mod int L)))
       \<and> (\<forall>i\<ge>int L. fst (TweetIterator_getitem e ti i) = Inl (IndexError i (int L)))
       \<and> (\<forall>x\<in>set (TweetIterator_iter e ti). \<forall>a b. x \<noteq> Inl (IndexError a b))"
proof -
  from len_result [OF assms(1)] obtain x where
    len: "TweetIterator_len e ti = (Inr L, ti\<lparr>self_length := x\<rparr>)" by blast
  have noidx: "x \<noteq> Inl (IndexError a b)" if "x \<in> set (TweetIterator_iter e ti)" for x a b
    using that iter_texts_error [of "IndexError a b" e ti "source_texts (source ti)"]
    by (auto simp: TweetIterator_iter_texts)
  have neg: "fst (TweetIterator_getitem e ti i)
               = getitem_loop (TweetIterator_iter e ti) 0 (i mod int L) None" if "i < 0" for i
    using that assms(2) len by (simp add: TweetIterator_getitem_def)
  have inr: "fst (TweetIterator_getitem e ti i)
               = getitem_loop (TweetIterator_iter e ti) 0 i None" if "0 \<le> i" "i < int L" for i
    using that len by (simp add: TweetIterator_getitem_def)
  have 1: "fst (TweetIterator_getitem e ti i) = fst (TweetIterator_getitem e ti (i mod int L))"
    if "i < 0" for i
    using neg [OF that] inr [of "i mod int L"] assms(2) by simp
  have 2: "fst (TweetIterator_getitem e ti i) \<noteq> Inl (IndexError a b)" if "i < 0" for i a b
  proof
    assume "fst (TweetIterator_getitem e ti i) = Inl (IndexError a b)"
    then have "getitem_loop (TweetIterator_iter e ti) 0 (i mod int L) None = Inl (IndexError a b)"
      using neg [OF that] by simp
    from getitem_loop_error [OF this] noidx show False by auto
  qed
  have 3: "fst (TweetIterator_getitem e ti i) = Inr (vs ! nat (i mod int L))"
    if "i < 0" and "TweetIterator_iter e ti = map Inr vs \<and> length vs = L" for i vs
  proof -
    have "0 \<le> i mod int L" "i mod int L < int L" using assms(2) by simp_all
    then show ?thesis
      using neg [OF that(1)] that(2) getitem_loop_nth [of 0 "i mod int L" vs None] by simp
  qed
  have 4: "fst (TweetIterator_getitem e ti i) = Inl (IndexError i (int L))" if "int L \<le> i" for i
    using that len by (simp add: TweetIterator_getitem_def)
  show ?thesis using 1 2 3 4 noidx by blast
qed

theorem getitem_wraparound_witness:
  "fst (TweetIterator_len example_env
      \<lparr>source = three_tweets, yield_list = [''raw_tweet''], skip_nohashtag = False, self_length = None\<rparr>) = Inr 3
   \<and> (0::nat) < 3
   \<and> fst (TweetIterator_getitem example_env
      \<lparr>source = three_tweets, yield_list = [''raw_tweet''], skip_nohashtag = False, self_length = None\<rparr> (- 1))
     = Inr (PStr ''#ok tweet two'')
   \<and> fst (TweetIterator_getitem example_env
      \<lparr>source = three_tweets, yield_list = [''raw_tweet''], skip_nohashtag = False, self_length = None\<rparr> 2)
     = Inr (PStr ''#ok tweet two'')
   \<and> fst (TweetIterator_getitem example_env
      \<lparr>source = three_tweets, yield_list = [''raw_tweet''], skip_nohashtag = False, self_length = None\<rparr> 3)
     = Inl (IndexError 3 3)"
proof -
  let ?ti = "\<lparr>source = three_tweets, yield_list = [''raw_tweet''], skip_nohashtag = False, self_length = None\<rparr>"
  have l: "fst (TweetIterator_len example_env ?ti) = Inr 3" by code_simp
  have p: "(0::nat) < 3" by simp
  have it: "TweetIterator_iter example_env ?ti
              = map Inr [PStr ''#ok tweet one'', PStr ''no tags here'', PStr ''#ok tweet two'']"
    by code_simp
  note t = getitem_wraparound [OF l p]
  have m: "(- 1) mod int 3 = (2::int)" by simp
  have "fst (TweetIterator_getitem example_env ?ti (- 1))
          = Inr ([PStr ''#ok tweet one'', PStr ''no tags here'', PStr ''#ok tweet two''] ! nat ((- 1) mod int 3))"
    using t [THEN conjunct2, THEN conjunct2, THEN conjunct1, rule_format, of "- 1"
        "[PStr ''#ok tweet one'', PStr ''no tags here'', PStr ''#ok tweet two'']"] it
    by simp
  then have a: "fst (TweetIterator_getitem example_env ?ti (- 1)) = Inr (PStr ''#ok tweet two'')"
    unfolding m by simp
  have "fst (TweetIterator_getitem example_env ?ti (- 1))
          = fst (TweetIterator_getitem example_env ?ti ((- 1) mod int 3))"
    using t [THEN conjunct1, rule_format, of "- 1"] by simp
  then have b: "fst (TweetIterator_getitem example_env ?ti 2) = Inr (PStr ''#ok tweet two'')"
    unfolding m using a by simp
  have c: "fst (TweetIterator_getitem example_env ?ti 3) = Inl (IndexError 3 3)"
    using t [THEN conjunct2, THEN conjunct2, THEN conjunct2, THEN conjunct1, rule_format, of 3]
    by simp
  show ?thesis using l p a b c by simp
qed

section \<open>Properties of the batch aggregator\<close>

lemma acc_inv_empty: "acc_inv ki empty_accum 0"
  by (simp add: acc_inv_def empty_accum_def)

lemma accumulate_step:
  assumes "readable ki outs" and "acc_inv ki acc c"
  shows "\<exists>acc'. accumulate ki acc outs = Inr acc' \<and> acc_inv ki acc' (Suc c)"
  using assms unfolding readable_def acc_inv_def accumulate_def Let_def
  by (cases "self_char ki"; cases "self_chrd ki"; cases "self_word ki")
     (auto split: sum.splits)

lemma make_batch_size: "acc_inv ki acc c \<Longrightarrow> batch_has_size (make_batch ki acc) c"
  by (auto simp: acc_inv_def make_batch_def batch_has_size_def array_len_def)

lemma inner_loop_run:
  assumes B: "batch_size ki = int B"
  shows "list_all (readable ki) items \<Longrightarrow> acc_inv ki acc c \<Longrightarrow> c < B \<Longrightarrow>
    (if B \<le> c + length items
     then \<exists>b. inner_loop ki acc (map Inr items) = Yielded b (map Inr (drop (B - c) items))
            \<and> batch_has_size b B
     else \<exists>acc'. inner_loop ki acc (map Inr items) = Exhausted acc'
            \<and> acc_inv ki acc' (c + length items))"
proof (induction items arbitrary: acc c)
  case Nil
  then show ?case by simp
next
  case (Cons v items)
  from Cons.prems have r: "readable ki v" and rs: "list_all (readable ki) items" by simp_all
  from accumulate_step [OF r Cons.prems(2)] obtain acc' where
    a: "accumulate ki acc v = Inr acc'" and inv: "acc_inv ki acc' (Suc c)" by blast
  have i: "acc_i acc' = int (Suc c)" using inv by (simp add: acc_inv_def)
  show ?case
  proof (cases "Suc c = B")
    case True
    then have "inner_loop ki acc (map Inr (v # items)) = Yielded (make_batch ki acc') (map Inr items)"
      using a i B by simp
    moreover have "batch_has_size (make_batch ki acc') B" using make_batch_size [OF inv] True by simp
    moreover have "drop (B - c) (v # items) = items" using True by auto
    ultimately show ?thesis using True by auto
  next
    case False
    then have lt: "Suc c < B" using Cons.prems(3) by simp
    have step: "inner_loop ki acc (map Inr (v # items)) = inner_loop ki acc' (map Inr items)"
      using a i B False by simp
    have d: "drop (B - c) (v # items) = drop (B - Suc c) items"
      using lt by (simp add: drop_Cons' )
    show ?thesis using Cons.IH [OF rs inv lt] step d by auto
  qed
qed

lemma outer_loop_step:
  assumes B: "batch_size ki = int B" and pos: "0 < B" and ok: "list_all (readable ki) r"
      and ne: "r \<noteq> []"
  shows "\<exists>b. outer_loop e ki empty_accum (map Inr r)
           = Some (Inr b, if B \<le> length r then KInner (map Inr (drop B r)) else KFlushed)
         \<and> batch_has_size b (min B (length r))"
proof (cases "B \<le> length r")
  case True
  from inner_loop_run [OF B ok acc_inv_empty pos] True obtain b where
    "inner_loop ki empty_accum (map Inr r) = Yielded b (map Inr (drop B r))" "batch_has_size b B"
    by auto
  then show ?thesis using True by (subst outer_loop.simps) (simp add: min_def)
next
  case False
  from inner_loop_run [OF B ok acc_inv_empty pos] False obtain acc' where
    i: "inner_loop ki empty_accum (map Inr r) = Exhausted acc'" and inv: "acc_inv ki acc' (length r)"
    by auto
  have "acc_i acc' > 0" using inv ne by (simp add: acc_inv_def)
  moreover have "batch_has_size (make_batch ki acc') (min B (length r))"
    using make_batch_size [OF inv] False by (simp add: min_def)
  ultimately show ?thesis using False i by (subst outer_loop.simps) simp
qed

lemma keras_next_pass_start:
  assumes "pass_start st" and "TweetIterator_iter e (self_tweet_iterator ki) = its"
  shows "keras_next e ki st = outer_loop e ki empty_accum its"
proof -
  have "outer_loop e ki empty_accum [] = outer_loop e ki empty_accum its"
    using assms(2) by (subst outer_loop.simps) (simp add: empty_accum_def)
  then show ?thesis using assms by (auto simp: keras_next_def pass_start_def)
qed

lemma pass_sizes_small: "0 < n \<Longrightarrow> n < B \<Longrightarrow> pass_sizes B n = [n]"
  by (simp add: pass_sizes_def)

lemma pass_sizes_eq: "0 < B \<Longrightarrow> pass_sizes B B = [B]"
  by (simp add: pass_sizes_def)

lemma pass_sizes_big: "0 < B \<Longrightarrow> B < n \<Longrightarrow> pass_sizes B n = B # pass_sizes B (n - B)"
  by (simp add: pass_sizes_def le_div_geq le_mod_geq)

lemma pass_sizes_Nil: "pass_sizes B 0 = []"
  by (simp add: pass_sizes_def)

lemma keras_rest_of_pass:
  assumes B: "batch_size ki = int B" and pos: "0 < B"
  shows "list_all (readable ki) r \<Longrightarrow>
    \<exists>bs st'. keras_nexts e ki (KInner (map Inr r)) (length (pass_sizes B (length r)))
                = Some (map Inr bs, st')
            \<and> list_all2 batch_has_size bs (pass_sizes B (length r))
            \<and> (r \<noteq> [] \<longrightarrow> pass_start st')"
proof (induction "length r" arbitrary: r rule: less_induct)
  case less
  show ?case
  proof (cases "r = []")
    case True
    then show ?thesis by (simp add: pass_sizes_Nil)
  next
    case False
    from outer_loop_step [OF B pos less.prems False, of e] obtain b where
      n: "keras_next e ki (KInner (map Inr r))
           = Some (Inr b, if B \<le> length r then KInner (map Inr (drop B r)) else KFlushed)"
      and s: "batch_has_size b (min B (length r))"
      by (auto simp: keras_next_def)
    consider "length r < B" | "length r = B" | "B < length r" by linarith
    then show ?thesis
    proof cases
      case 1
      then have "pass_sizes B (length r) = [length r]" using False by (simp add: pass_sizes_small)
      then show ?thesis using n s 1
        by (intro exI [of _ "[b]"] exI [of _ KFlushed]) (simp add: pass_start_def min_def)
    next
      case 2
      then have "pass_sizes B (length r) = [B]" using pos by (simp add: pass_sizes_eq)
      then show ?thesis using n s 2
        by (intro exI [of _ "[b]"] exI [of _ "KInner []"]) (simp add: pass_start_def)
    next
      case 3
      let ?r = "drop B r"
      have ps: "pass_sizes B (length r) = B # pass_sizes B (length ?r)"
        using 3 pos by (simp add: pass_sizes_big)
      have ok: "list_all (readable ki) ?r" using less.prems by (auto simp: list_all_iff dest: in_set_dropD)
      have ne: "?r \<noteq> []" using 3 by simp
      have lt: "length ?r < length r" using 3 pos by simp
      from less.hyps [OF lt ok] ne obtain bs st' where
        "keras_nexts e ki (KInner (map Inr ?r)) (length (pass_sizes B (length ?r))) = Some (map Inr bs, st')"
        "list_all2 batch_has_size bs (pass_sizes B (length ?r))" "pass_start st'"
        by blast
      then show ?thesis using n s 3 ps
        by (intro exI [of _ "b # bs"] exI [of _ st']) (simp add: min_def)
    qed
  qed
qed

lemma keras_nexts_start:
  assumes "pass_start st" and "TweetIterator_iter e (self_tweet_iterator ki) = its"
  shows "keras_nexts e ki st (Suc k) = keras_nexts e ki (KInner its) (Suc k)"
  using keras_next_pass_start [OF assms] by (simp add: keras_next_def)

lemma keras_pass:
  assumes B: "batch_size ki = int B" and pos: "0 < B"
      and it: "TweetIterator_iter e (self_tweet_iterator ki) = map Inr items"
      and ok: "list_all (readable ki) items" and ne: "items \<noteq> []" and st: "pass_start st"
  shows "\<exists>bs st'. keras_nexts e ki st (length (pass_sizes B (length items))) = Some (map Inr bs, st')
            \<and> list_all2 batch_has_size bs (pass_sizes B (length items))
            \<and> pass_start st'"
proof -
  have "pass_sizes B (length items) \<noteq> []"
    using ne pos by (cases "length items < B") (auto simp: pass_sizes_def div_greater_zero_iff)
  then obtain m where m: "length (pass_sizes B (length items)) = Suc m"
    by (cases "pass_sizes B (length items)") auto
  from keras_rest_of_pass [OF B pos ok, of e] ne obtain bs st' where
    "keras_nexts e ki (KInner (map Inr items)) (length (pass_sizes B (length items))) = Some (map Inr bs, st')"
    "list_all2 batch_has_size bs (pass_sizes B (length items))" "pass_start st'"
    by blast
  then show ?thesis using keras_nexts_start [OF st it, of m] m by auto
qed

lemma keras_nexts_add:
  "keras_nexts e ki st (a + b) =
     (case keras_nexts e ki st a of
        None \<Rightarrow> None
      | Some (xs, st') \<Rightarrow>
          (case keras_nexts e ki st' b of None \<Rightarrow> None | Some (ys, st'') \<Rightarrow> Some (xs @ ys, st'')))"
  by (induction a arbitrary: st) (auto split: option.splits)

lemma keras_passes:
  assumes B: "batch_size ki = int B" and pos: "0 < B"
      and it: "TweetIterator_iter e (self_tweet_iterator ki) = map Inr items"
      and ok: "list_all (readable ki) items" and ne: "items \<noteq> []"
  shows "pass_start st \<Longrightarrow>
         \<exists>bs st'. keras_nexts e ki st (p * length (pass_sizes B (length items))) = Some (map Inr bs, st')
            \<and> list_all2 batch_has_size bs (concat (replicate p (pass_sizes B (length items))))
            \<and> pass_start st'"
proof (induction p arbitrary: st)
  case 0
  then show ?case by simp
next
  case (Suc p)
  let ?m = "length (pass_sizes B (length items))"
  from keras_pass [OF B pos it ok ne Suc.prems] obtain bs1 st1 where
    1: "keras_nexts e ki st ?m = Some (map Inr bs1, st1)"
       "list_all2 batch_has_size bs1 (pass_sizes B (length items))" "pass_start st1"
    by blast
  from Suc.IH [OF 1(3)] obtain bs2 st2 where
    2: "keras_nexts e ki st1 (p * ?m) = Some (map Inr bs2, st2)"
       "list_all2 batch_has_size bs2 (concat (replicate p (pass_sizes B (length items))))"
       "pass_start st2"
    by blast
  have "keras_nexts e ki st (Suc p * ?m) = Some (map Inr (bs1 @ bs2), st2)"
    using 1(1) 2(1) by (simp add: keras_nexts_add)
  moreover have "list_all2 batch_has_size (bs1 @ bs2)
      (concat (replicate (Suc p) (pass_sizes B (length items))))"
    using 1(2) 2(2) by (simp add: list_all2_appendI)
  ultimately show ?case using 2(3) by blast
qed

lemma outer_loop_Some:
  assumes "outer_loop e ki acc its = Some y"
  shows "\<not> (acc_i acc \<le> 0 \<and> its = [] \<and> TweetIterator_iter e (self_tweet_iterator ki) = [])"
proof (rule outer_loop.raw_induct
    [where P = "\<lambda>e ki acc its y.
        \<not> (acc_i acc \<le> 0 \<and> its = [] \<and> TweetIterator_iter e (self_tweet_iterator ki) = [])",
     OF _ assms], goal_cases)
  case (1 f e ki acc its y)
  show ?case
  proof
    assume a: "acc_i acc \<le> 0 \<and> its = [] \<and> TweetIterator_iter e (self_tweet_iterator ki) = []"
    then have "f e ki acc [] = Some y" using 1(2) by simp
    from 1(1) [OF this] a show False by simp
  qed
qed

lemma outer_loop_empty_pass:
  assumes "TweetIterator_iter e (self_tweet_iterator ki) = []"
  shows "outer_loop e ki empty_accum [] = None"
  using outer_loop_Some [of e ki empty_accum "[]"] assms
  by (cases "outer_loop e ki empty_accum []") (auto simp: empty_accum_def)

lemma KerasIterator_init_eq:
  "KerasIterator_init src bsize c d w =
     Inr \<lparr>self_tweet_iterator =
            \<lparr>source = src, yield_list = mat_types c d w, skip_nohashtag = True, self_length = None\<rparr>,
          self_char = c, self_chrd = d, self_word = w, batch_size = bsize\<rparr>"
  by (cases c; cases d; cases w)
     (simp_all add: KerasIterator_init_def TweetIterator_init_def mat_types_def yw_options_def)

lemma produce_mats:
  "\<exists>M. produce e t tweet hashtags ''char_mat'' = Inr (Some (PMat M))"
  "\<exists>M. produce e t tweet hashtags ''chrd_mat'' = Inr (Some (PMat M))"
  "w2v e = Some m \<Longrightarrow> wf_w2v m \<Longrightarrow> \<exists>M. produce e t tweet hashtags ''word_mat'' = Inr (Some (PMat M))"
  "mlb e = Some b \<Longrightarrow>
     produce e t tweet hashtags ''label'' = Inr (Some (PMat (mlb_transform b [hashtags])))"
  using text2mat_char_rows [of 140 e tweet 30] text2mat_chrd_rows [of 30 e tweet 140]
    text2mat_word_rows [of 30 e m tweet 140]
  by (simp_all add: produce_def text2mat_default_def)

lemma yield_loop_mats:
  assumes "mlb e = Some b" and "w \<longrightarrow> (\<exists>m. w2v e = Some m \<and> wf_w2v m)"
  shows "\<exists>out. yield_loop e t tweet hashtags (mat_types c d w) = Inr out
           \<and> readable \<lparr>self_tweet_iterator = ti, self_char = c, self_chrd = d, self_word = w,
                        batch_size = bsize\<rparr>
               (if length out = 1 then out ! 0 else PList out)
           \<and> out \<noteq> []"
proof -
  obtain Mc where Mc: "produce e t tweet hashtags ''char_mat'' = Inr (Some (PMat Mc))"
    using produce_mats(1) by blast
  obtain Md where Md: "produce e t tweet hashtags ''chrd_mat'' = Inr (Some (PMat Md))"
    using produce_mats(2) by blast
  have l: "produce e t tweet hashtags ''label'' = Inr (Some (PMat (mlb_transform b [hashtags])))"
    using produce_mats(4) [OF assms(1)] by simp
  have len: "length (mlb_transform b [hashtags]) = 1" by (simp add: mlb_transform_def)
  show ?thesis
  proof (cases w)
    case True
    then obtain m where "w2v e = Some m" "wf_w2v m" using assms(2) by blast
    then obtain Mw where Mw: "produce e t tweet hashtags ''word_mat'' = Inr (Some (PMat Mw))"
      using produce_mats(3) by blast
    show ?thesis using True Mc Md Mw l len
      by (cases c; cases d)
         (simp_all add: mat_types_def readable_def accumulate_def subscript_def empty_accum_def)
  next
    case False
    show ?thesis using False Mc Md l len
      by (cases c; cases d)
         (simp_all add: mat_types_def readable_def accumulate_def subscript_def empty_accum_def)
  qed
qed

lemma iter_texts_mats:
  assumes "mlb e = Some b" and "w \<longrightarrow> (\<exists>m. w2v e = Some m \<and> wf_w2v m)"
      and "yield_list ti = mat_types c d w" and "skip_nohashtag ti"
  shows "\<exists>items. iter_texts e ti ts = map Inr items
           \<and> list_all (readable \<lparr>self_tweet_iterator = ti', self_char = c, self_chrd = d,
                                   self_word = w, batch_size = bsize\<rparr>) items
           \<and> length items = length (filter (survives e) ts)"
proof (induction ts)
  case Nil
  then show ?case by simp
next
  case (Cons t ts)
  then obtain items where items: "iter_texts e ti ts = map Inr items"
    "list_all (readable \<lparr>self_tweet_iterator = ti', self_char = c, self_chrd = d,
                                   self_word = w, batch_size = bsize\<rparr>) items"
    "length items = length (filter (survives e) ts)" by blast
  show ?case
  proof (cases "survives e t")
    case False
    then have "yield_fields e ti t = Inr []"
      using assms(4) by (simp add: yield_fields_def survives_def Let_def)
    then show ?thesis using items False by simp
  next
    case True
    from yield_loop_mats [OF assms(1,2), of t "fst (split_hashtags t)" "known_hashtags e t" c d ti' bsize]
    obtain out where out: "yield_loop e t (fst (split_hashtags t)) (known_hashtags e t) (mat_types c d w) = Inr out"
      "readable \<lparr>self_tweet_iterator = ti', self_char = c, self_chrd = d, self_word = w,
                        batch_size = bsize\<rparr> (if length out = 1 then out ! 0 else PList out)"
      "out \<noteq> []" by blast
    have y: "yield_fields e ti t = Inr out"
      using True out(1) assms(3) by (simp add: yield_fields_def survives_def Let_def)
    show ?thesis
      using y out(2,3) items True
      by (intro exI [of _ "(if length out = 1 then out ! 0 else PList out) # items"]) simp
  qed
qed

lemma keras_iter_items:
  assumes "KerasIterator_init src bsize c d w = Inr ki"
      and "mlb e = Some b" and "w \<longrightarrow> (\<exists>m. w2v e = Some m \<and> wf_w2v m)"
  shows "\<exists>items. TweetIterator_iter e (self_tweet_iterator ki) = map Inr items
           \<and> list_all (readable ki) items
           \<and> length items = length (filter (survives e) (source_texts src))"
proof -
  let ?ti = "\<lparr>source = src, yield_list = mat_types c d w, skip_nohashtag = True, self_length = None\<rparr>"
  have ki: "ki = \<lparr>self_tweet_iterator = ?ti, self_char = c, self_chrd = d, self_word = w,
                  batch_size = bsize\<rparr>"
    using assms(1) by (simp add: KerasIterator_init_eq)
  show ?thesis
    unfolding ki using iter_texts_mats [OF assms(2,3), of ?ti c d "source_texts src" ?ti bsize]
    by (simp add: TweetIterator_iter_texts)
qed

text \<open>
  C4.  Let the aggregator be constructed over any source with a batch size \<open>B > 0\<close>, with the
  models that its fields need loaded, and let \<open>n\<close> be the number of qualifying items of the
  source.  If \<open>n > 0\<close>, then for every number \<open>p\<close> of passes the \<^verbatim>\<open>next\<close> calls of \<open>p\<close>
  passes all return a batch (the generator never ends), and the sizes of the batches are
  \<open>p\<close> times those of one pass: \<open>n div B\<close> batches of \<open>B\<close> items and then, when \<open>B\<close> does not
  divide \<open>n\<close>, one batch of the \<open>n mod B\<close> items that are left.  If \<open>n = 0\<close>, a \<^verbatim>\<open>next\<close>
  call restarts the pass for ever: it neither returns nor raises.
\<close>

theorem keras_iterator_batches:
  assumes "KerasIterator_init src bsize use_char use_chrd use_word = Inr ki"
      and "0 < bsize"
      and "mlb e = Some b"
      and "use_word \<longrightarrow> (\<exists>m. w2v e = Some m \<and> wf_w2v m)"
  shows "(0 < qualifying e src \<longrightarrow>
            (\<forall>p. \<exists>bs st.
               keras_nexts e ki KStart (p * length (pass_sizes (nat bsize) (qualifying e src)))
                 = Some (map Inr bs, st)
               \<and> list_all2 batch_has_size bs
                   (concat (replicate p (pass_sizes (nat bsize) (qualifying e src))))))
       \<and> (qualifying e src = 0 \<longrightarrow> keras_next e ki KStart = None)"
proof -
  from keras_iter_items [OF assms(1,3,4)] obtain items where
    it: "TweetIterator_iter e (self_tweet_iterator ki) = map Inr items"
    and ok: "list_all (readable ki) items"
    and len: "length items = qualifying e src"
    by (auto simp: qualifying_def)
  have B: "batch_size ki = int (nat bsize)"
    using assms(1,2) by (simp add: KerasIterator_init_eq) auto
  have pos: "0 < nat bsize" using assms(2) by simp
  have start: "pass_start KStart" by (simp add: pass_start_def)
  have "\<exists>bs st.
          keras_nexts e ki KStart (p * length (pass_sizes (nat bsize) (qualifying e src)))
            = Some (map Inr bs, st)
          \<and> list_all2 batch_has_size bs
              (concat (replicate p (pass_sizes (nat bsize) (qualifying e src))))"
    if "0 < qualifying e src" for p
  proof -
    have ne: "items \<noteq> []" using that len by auto
    from keras_passes [OF B pos it ok ne start, of p] show ?thesis unfolding len by blast
  qed
  moreover have "keras_next e ki KStart = None" if "qualifying e src = 0"
  proof -
    have "items = []" using that len by simp
    then have e: "TweetIterator_iter e (self_tweet_iterator ki) = []" using it by simp
    show ?thesis
      using keras_next_pass_start [OF start e] outer_loop_empty_pass [OF e] by simp
  qed
  ultimately show ?thesis by blast
qed

theorem keras_iterator_batches_witness:
  "(\<exists>ki. KerasIterator_init seven_tweets 3 True True True = Inr ki
      \<and> (0::int) < 3
      \<and> mlb example_env = Some \<lparr>classes = [''#b'', ''#ok'']\<rparr>
      \<and> (True \<longrightarrow> (\<exists>m. w2v example_env = Some m \<and> wf_w2v m))
      \<and> qualifying example_env seven_tweets = 7
      \<and> pass_sizes (nat 3) 7 = [3, 3, 1]
      \<and> (\<exists>bs st. keras_nexts example_env ki KStart 6 = Some (map Inr bs, st)
            \<and> list_all2 batch_has_size bs [3, 3, 1, 3, 3, 1]))"
proof -
  obtain ki where ki: "KerasIterator_init seven_tweets 3 True True True = Inr ki"
    by (simp add: KerasIterator_init_eq)
  have p: "(0::int) < 3" by simp
  have m: "mlb example_env = Some \<lparr>classes = [''#b'', ''#ok'']\<rparr>" by (simp add: example_env_def)
  have wf: "wf_w2v example_store"
    by (auto simp: wf_w2v_def example_store_def split: if_splits)
  then have w: "True \<longrightarrow> (\<exists>m. w2v example_env = Some m \<and> wf_w2v m)"
    by (simp add: example_env_def)
  have q: "qualifying example_env seven_tweets = 7" by code_simp
  have s: "pass_sizes (nat 3) 7 = [3, 3, 1]" by code_simp
  from keras_iterator_batches [OF ki p m w] q
  have "\<forall>p. \<exists>bs st.
          keras_nexts example_env ki KStart (p * length (pass_sizes (nat 3) 7)) = Some (map Inr bs, st)
          \<and> list_all2 batch_has_size bs (concat (replicate p (pass_sizes (nat 3) 7)))"
    by simp
  from this [rule_format, of 2]
  have "\<exists>bs st. keras_nexts example_env ki KStart 6 = Some (map Inr bs, st)
            \<and> list_all2 batch_has_size bs [3, 3, 1, 3, 3, 1]"
    unfolding s by (simp add: numeral_eq_Suc)
  then show ?thesis using ki p m w q s by blast
qed

section \<open>Properties of the text normalizer\<close>

lemma clean_unfold:
  "clean x = strip (sub multspace_regex '' '' (sub retweet_regex '' '' (sub mention_regex '' @user''
     (sub email_regex '' email@address '' (sub noncharacter_regex '' ''
       (sub url_regex '' httpurl'' (lower x)))))))"
  by (simp add: clean_def Let_def)

lemma of_char_at: "c = CHR ''@'' \<Longrightarrow> of_char c = (64::nat)"
  by simp

lemma of_char_space: "c = CHR '' '' \<Longrightarrow> of_char c = (32::nat)"
  by simp

lemma of_char_eq_space: "of_char c = (32::nat) \<Longrightarrow> c = CHR '' ''"
proof -
  assume "of_char c = (32::nat)"
  then have "of_char c = (of_char (CHR '' '') :: nat)" by simp
  then show ?thesis by (simp only: of_char_eq_iff)
qed

lemma space_noncharacter: "is_space c \<Longrightarrow> is_noncharacter c"
  by (auto simp: is_space_def is_noncharacter_def is_character_def is_digit_def
      is_ascii_lower_def is_ascii_upper_def Let_def dest: of_char_at)

lemma ok_noncharacter: "ok_char c \<Longrightarrow> is_noncharacter c \<Longrightarrow> c = CHR '' ''"
  by (auto simp: ok_char_def is_noncharacter_def is_character_def)

lemma ok_space: "ok_char c \<Longrightarrow> is_space c \<Longrightarrow> c = CHR '' ''"
  using ok_noncharacter space_noncharacter by blast

lemma space_is_space: "is_space (CHR '' '')"
  by (simp add: is_space_def)

lemma ok_character: "is_character c \<Longrightarrow> \<not> is_ascii_upper c \<Longrightarrow> ok_char c"
  by (auto simp: ok_char_def is_character_def)

lemma ok_not_upper: "ok_char c \<Longrightarrow> \<not> is_upper c"
  by (auto simp: ok_char_def is_upper_def is_digit_def is_ascii_lower_def Let_def
      dest: of_char_at of_char_space)

lemma lower_char_id: "\<not> is_upper c \<Longrightarrow> lower_char c = c"
  by (cases c) simp

lemma lower_char_not_ascii_upper: "\<not> is_ascii_upper (lower_char c)"
proof (cases c)
  case (Char b0 b1 b2 b3 b4 b5 b6 b7)
  show ?thesis
  proof (cases "is_upper c")
    case False
    then have "\<not> is_ascii_upper c" by (auto simp: is_upper_def is_ascii_upper_def Let_def)
    then show ?thesis using False by (simp add: lower_char_id)
  next
    case True
    then have "lower_char c = Char b0 b1 b2 b3 b4 True b6 b7" using Char by simp
    moreover have "\<not> is_ascii_upper (Char b0 b1 b2 b3 b4 True b6 b7)"
      by (cases b0; cases b1; cases b2; cases b3; cases b4; cases b6; cases b7)
         (simp_all add: is_ascii_upper_def)
    ultimately show ?thesis by simp
  qed
qed

lemma lower_ok: "list_all ok_char s \<Longrightarrow> lower s = s"
  by (induction s) (simp_all add: lower_def lower_char_id ok_not_upper)

lemma lower_no_upper: "c \<in> set (lower s) \<Longrightarrow> \<not> is_ascii_upper c"
  by (auto simp: lower_def lower_char_not_ascii_upper)

lemma re_sub_Nil_ClsPlus: "re_sub (ClsPlus P) repl pos [] = []"
  by (subst re_sub.simps) simp

lemma rmatch_ClsPlus_no: "\<not> P c \<Longrightarrow> rmatch (ClsPlus P) pos (c # cs) = []"
  by simp

lemma rmatch_ClsPlus_yes:
  "P c \<Longrightarrow> rmatch (ClsPlus P) pos (c # cs)
     = Suc (length (takeWhile P cs)) # rev [1 ..< Suc (length (takeWhile P cs))]"
  by simp

lemma re_sub_ClsPlus_no:
  "\<not> P c \<Longrightarrow> re_sub (ClsPlus P) repl pos (c # cs) = c # re_sub (ClsPlus P) repl (Suc pos) cs"
  by (subst re_sub.simps) simp

lemma re_sub_ClsPlus_yes:
  assumes "P c"
  shows "re_sub (ClsPlus P) repl pos (c # cs)
     = repl @ re_sub (ClsPlus P) repl (pos + Suc (length (takeWhile P cs))) (dropWhile P cs)"
proof -
  have "drop (length (takeWhile P cs)) cs = dropWhile P cs"
    by (simp add: dropWhile_eq_drop)
  then show ?thesis
    using assms by (subst re_sub.simps) simp
qed

lemma re_sub_set: "set (re_sub r repl pos s) \<subseteq> set repl \<union> set s"
proof (induction r repl pos s rule: re_sub.induct)
  case (1 r repl pos s)
  show ?case
  proof (cases "rmatch r pos s")
    case Nil
    show ?thesis
    proof (cases s)
      case Nil
      then show ?thesis using \<open>rmatch r pos s = []\<close> by (subst re_sub.simps) simp
    next
      case (Cons c cs)
      then show ?thesis using \<open>rmatch r pos s = []\<close> "1.IH"(1) [OF \<open>rmatch r pos s = []\<close> Cons]
        by (subst re_sub.simps) auto
    qed
  next
    case (Cons n ns)
    show ?thesis
    proof (cases "n = 0 \<or> s = []")
      case True
      show ?thesis
      proof (cases s)
        case Nil
        then show ?thesis using Cons True by (subst re_sub.simps) simp
      next
        case c: (Cons c cs)
        then show ?thesis using Cons True "1.IH"(2) [OF Cons True c]
          by (subst re_sub.simps) auto
      qed
    next
      case False
      then show ?thesis using Cons "1.IH"(3) [OF Cons False] set_drop_subset [of n s]
        by (subst re_sub.simps) auto
    qed
  qed
qed

lemma sub_set: "set (sub r repl s) \<subseteq> set repl \<union> set s"
  by (simp add: sub_def re_sub_set)

lemma re_sub_ClsPlus_set:
  "set (re_sub (ClsPlus P) repl pos s) \<subseteq> set repl \<union> {c \<in> set s. \<not> P c}"
proof (induction "length s" arbitrary: s pos rule: less_induct)
  case less
  show ?case
  proof (cases s)
    case Nil
    then show ?thesis by (simp add: re_sub_Nil_ClsPlus)
  next
    case (Cons c cs)
    show ?thesis
    proof (cases "P c")
      case True
      have "length (dropWhile P cs) < length s" using Cons
        by (simp add: length_dropWhile_le le_imp_less_Suc)
      from less [OF this] have
        "set (re_sub (ClsPlus P) repl (pos + Suc (length (takeWhile P cs))) (dropWhile P cs))
           \<subseteq> set repl \<union> {c \<in> set (dropWhile P cs). \<not> P c}" .
      moreover have "set (dropWhile P cs) \<subseteq> set cs" by (rule set_dropWhileD [THEN subsetI])
      ultimately show ?thesis using Cons True by (auto simp: re_sub_ClsPlus_yes)
    next
      case False
      have "length cs < length s" using Cons by simp
      from less [OF this, of "Suc pos"] show ?thesis using Cons False
        by (auto simp: re_sub_ClsPlus_no)
    qed
  qed
qed

lemma at_survives_collapse:
  "filter (\<lambda>c. c = CHR ''@'') (re_sub (ClsPlus is_noncharacter) '' '' pos s)
     = filter (\<lambda>c. c = CHR ''@'') s"
proof (induction "length s" arbitrary: s pos rule: less_induct)
  case less
  show ?case
  proof (cases s)
    case Nil
    then show ?thesis by (simp add: re_sub_Nil_ClsPlus)
  next
    case (Cons c cs)
    show ?thesis
    proof (cases "is_noncharacter c")
      case True
      have lt: "length (dropWhile is_noncharacter cs) < length s" using Cons
        by (simp add: length_dropWhile_le le_imp_less_Suc)
      have c: "c \<noteq> CHR ''@''" using True by (auto simp: is_noncharacter_def is_character_def)
      have "filter (\<lambda>c. c = CHR ''@'') (takeWhile is_noncharacter cs) = []"
        by (auto simp: filter_empty_conv is_noncharacter_def is_character_def dest: set_takeWhileD)
      then have "filter (\<lambda>c. c = CHR ''@'') cs = filter (\<lambda>c. c = CHR ''@'') (dropWhile is_noncharacter cs)"
        by (metis append_Nil filter_append takeWhile_dropWhile_id)
      then show ?thesis using Cons True c less [OF lt]
        by (simp add: re_sub_ClsPlus_yes)
    next
      case False
      have "length cs < length s" using Cons by simp
      from less [OF this, of "Suc pos"] show ?thesis using Cons False
        by (simp add: re_sub_ClsPlus_no)
    qed
  qed
qed

lemma single_spaced_tl: "single_spaced (c # cs) \<Longrightarrow> single_spaced cs"
  by (cases cs) simp_all

lemma single_spaced_Cons: "\<not> is_space c \<Longrightarrow> single_spaced cs \<Longrightarrow> single_spaced (c # cs)"
  by (cases cs) simp_all

lemma single_spaced_dropWhile: "single_spaced s \<Longrightarrow> single_spaced (dropWhile P s)"
  by (induction s) (auto dest: single_spaced_tl)

lemma single_spaced_prefix: "single_spaced (xs @ ys) \<Longrightarrow> single_spaced xs"
  by (induction xs rule: single_spaced.induct) auto

lemma strip_prefix: "\<exists>zs. dropWhile is_space s = strip s @ zs"
proof -
  let ?t = "dropWhile is_space s"
  have "rev (takeWhile is_space (rev ?t) @ dropWhile is_space (rev ?t)) = ?t"
    by (simp only: takeWhile_dropWhile_id rev_rev_ident)
  then have "rev (dropWhile is_space (rev ?t)) @ rev (takeWhile is_space (rev ?t)) = ?t"
    by (simp only: rev_append)
  then have "?t = strip s @ rev (takeWhile is_space (rev ?t))" by (simp only: strip_def)
  then show ?thesis by blast
qed

lemma dropWhile_hd: "xs \<noteq> [] \<Longrightarrow> \<not> P (hd xs) \<Longrightarrow> dropWhile P xs = xs"
  by (cases xs) simp_all

lemma single_spaced_strip: "single_spaced s \<Longrightarrow> single_spaced (strip s)"
proof -
  assume "single_spaced s"
  then have "single_spaced (dropWhile is_space s)" by (rule single_spaced_dropWhile)
  moreover obtain zs where "dropWhile is_space s = strip s @ zs" using strip_prefix by blast
  ultimately show ?thesis using single_spaced_prefix by metis
qed

lemma strip_set: "set (strip s) \<subseteq> set s"
proof -
  obtain zs where "dropWhile is_space s = strip s @ zs" using strip_prefix by blast
  then have "set (strip s) \<subseteq> set (dropWhile is_space s)" by (metis set_append Un_upper1)
  then show ?thesis using set_dropWhileD by fastforce
qed

lemma trimmed_strip: "trimmed (strip s)"
proof -
  let ?t = "dropWhile is_space s"
  let ?u = "dropWhile is_space (rev ?t)"
  have u: "strip s = rev ?u" by (simp add: strip_def)
  show ?thesis
  proof (cases "?u = []")
    case True
    then show ?thesis using u by (simp add: trimmed_def)
  next
    case False
    then have h: "\<not> is_space (hd ?u)" by (rule hd_dropWhile)
    have l: "last (strip s) = hd ?u" using u False by (simp add: last_rev)
    obtain zs where z: "?t = strip s @ zs" using strip_prefix by blast
    have ne: "strip s \<noteq> []" using u False by simp
    then have "hd (strip s) = hd ?t" using z by (metis hd_append2)
    moreover have "?t \<noteq> []" using z ne by auto
    ultimately have "\<not> is_space (hd (strip s))" using hd_dropWhile by metis
    then show ?thesis using h l by (simp add: trimmed_def)
  qed
qed

lemma strip_trimmed: "trimmed s \<Longrightarrow> strip s = s"
proof (cases "s = []")
  case True
  then show ?thesis by (simp add: strip_def)
next
  case False
  assume "trimmed s"
  then have h: "\<not> is_space (hd s)" and l: "\<not> is_space (last s)" using False
    by (simp_all add: trimmed_def)
  have 1: "dropWhile is_space s = s" using h False by (simp add: dropWhile_hd)
  have "hd (rev s) = last s" using False by (simp add: hd_rev)
  then have 2: "dropWhile is_space (rev s) = rev s" using l False by (simp add: dropWhile_hd)
  show ?thesis by (simp add: strip_def 1 2)
qed

lemma re_sub_multspace_single:
  "single_spaced (re_sub (ClsPlus is_space) '' '' pos s)
   \<and> (\<forall>c cs. s = c # cs \<and> \<not> is_space c \<longrightarrow>
         (\<exists>out. re_sub (ClsPlus is_space) '' '' pos s = c # out))"
proof (induction "length s" arbitrary: s pos rule: less_induct)
  case less
  show ?case
  proof (cases s)
    case Nil
    then show ?thesis by (simp add: re_sub_Nil_ClsPlus)
  next
    case (Cons c cs)
    show ?thesis
    proof (cases "is_space c")
      case False
      have "length cs < length s" using Cons by simp
      from less [OF this, of "Suc pos"] show ?thesis using Cons False
        by (simp add: re_sub_ClsPlus_no single_spaced_Cons)
    next
      case True
      let ?r = "dropWhile is_space cs"
      let ?p = "pos + Suc (length (takeWhile is_space cs))"
      have lt: "length ?r < length s" using Cons
        by (simp add: length_dropWhile_le le_imp_less_Suc)
      have eq: "re_sub (ClsPlus is_space) '' '' pos s = CHR '' '' # re_sub (ClsPlus is_space) '' '' ?p ?r"
        using Cons True by (simp add: re_sub_ClsPlus_yes)
      have "single_spaced (CHR '' '' # re_sub (ClsPlus is_space) '' '' ?p ?r)"
      proof (cases ?r)
        case Nil
        show ?thesis unfolding Nil by (simp add: re_sub_Nil_ClsPlus)
      next
        case r: (Cons b bs)
        then have b: "\<not> is_space b" using hd_dropWhile [of is_space cs] by auto
        from less [OF lt, of ?p] r b obtain out where
          o: "re_sub (ClsPlus is_space) '' '' ?p ?r = b # out" by auto
        have "single_spaced (b # out)" using less [OF lt, of ?p] o by simp
        then show ?thesis using o b by simp
      qed
      then show ?thesis using eq Cons True by simp
    qed
  qed
qed

lemma re_sub_collapse_id:
  assumes "\<And>c. ok_char c \<Longrightarrow> P c \<Longrightarrow> c = CHR '' ''" and "\<And>c. is_space c \<Longrightarrow> P c"
  shows "list_all ok_char s \<Longrightarrow> single_spaced s \<Longrightarrow> re_sub (ClsPlus P) '' '' pos s = s"
proof (induction s arbitrary: pos)
  case Nil
  then show ?case by (simp add: re_sub_Nil_ClsPlus)
next
  case (Cons c cs)
  have ss: "single_spaced cs" using Cons.prems(2) by (rule single_spaced_tl)
  have ok: "list_all ok_char cs" using Cons.prems(1) by simp
  show ?case
  proof (cases "P c")
    case False
    then show ?thesis using Cons.IH [OF ok ss] by (simp add: re_sub_ClsPlus_no)
  next
    case True
    then have c: "c = CHR '' ''" using assms(1) Cons.prems(1) by simp
    have "takeWhile P cs = [] \<and> dropWhile P cs = cs"
    proof (cases cs)
      case Nil
      then show ?thesis by simp
    next
      case (Cons b bs)
      have "\<not> is_space b" using Cons.prems(2) c Cons by (simp add: space_is_space) 
      moreover have "ok_char b" using ok Cons by simp
      ultimately have "\<not> P b" using assms(1) space_is_space by blast
      then show ?thesis using Cons by simp
    qed
    then show ?thesis using True c Cons.IH [OF ok ss] by (simp add: re_sub_ClsPlus_yes)
  qed
qed

lemma re_sub_same:
  "list_all (\<lambda>m. m = repl) (re_findall r pos s) \<Longrightarrow> re_sub r repl pos s = s"
proof (induction r repl pos s rule: re_sub.induct)
  case (1 r repl pos s)
  show ?case
  proof (cases "rmatch r pos s")
    case Nil
    show ?thesis
    proof (cases s)
      case Nil
      then show ?thesis using \<open>rmatch r pos s = []\<close> by (subst re_sub.simps) simp
    next
      case (Cons c cs)
      have "re_findall r pos s = re_findall r (Suc pos) cs"
        using Cons \<open>rmatch r pos s = []\<close> by (subst re_findall.simps) simp
      then have b: "list_all (\<lambda>m. m = repl) (re_findall r (Suc pos) cs)"
        using "1.prems" by simp
      have "re_sub r repl (Suc pos) cs = cs"
        by (rule "1.IH"(1) [OF \<open>rmatch r pos s = []\<close> Cons b])
      then show ?thesis using Cons \<open>rmatch r pos s = []\<close> by (subst re_sub.simps) simp
    qed
  next
    case (Cons n ns)
    show ?thesis
    proof (cases "n = 0 \<or> s = []")
      case True
      show ?thesis
      proof (cases s)
        case Nil
        have "re_findall r pos s = [[]]" using Cons True Nil by (subst re_findall.simps) simp
        then have "repl = []" using "1.prems" by simp
        then show ?thesis using Cons True Nil by (subst re_sub.simps) simp
      next
        case c: (Cons c cs)
        have f: "re_findall r pos s = [] # re_findall r (Suc pos) cs"
          using Cons True c by (subst re_findall.simps) simp
        have a: "repl = []" and b: "list_all (\<lambda>m. m = repl) (re_findall r (Suc pos) cs)"
          using "1.prems" f by auto
        have "re_sub r repl (Suc pos) cs = cs"
          by (rule "1.IH"(2) [OF Cons True c b])
        then show ?thesis using Cons True c a by (subst re_sub.simps) simp
      qed
    next
      case False
      have f: "re_findall r pos s = take n s # re_findall r (pos + n) (drop n s)"
        using Cons False by (subst re_findall.simps) simp
      have a: "take n s = repl" and b: "list_all (\<lambda>m. m = repl) (re_findall r (pos + n) (drop n s))"
        using "1.prems" f by auto
      have "re_sub r repl (pos + n) (drop n s) = drop n s"
        by (rule "1.IH"(3) [OF Cons False b])
      with a have "repl @ re_sub r repl (pos + n) (drop n s) = s"
        by (metis append_take_drop_id)
      then show ?thesis using Cons False by (subst re_sub.simps) simp
    qed
  qed
qed

lemma sub_same: "list_all (\<lambda>m. m = repl) (findall r s) \<Longrightarrow> sub r repl s = s"
  by (simp add: sub_def findall_def re_sub_same)

lemma sub_no_match: "findall r s = [] \<Longrightarrow> sub r repl s = s"
  by (simp add: sub_same)

lemma ok_repls:
  "list_all ok_char '' email@address ''" "list_all ok_char '' @user''" "list_all ok_char '' ''"
  by (simp_all add: ok_char_def is_ascii_lower_def)

lemma httpurl_no_upper: "c \<in> set '' httpurl'' \<Longrightarrow> \<not> is_ascii_upper c"
  by (auto simp: is_ascii_upper_def)

lemma sub_ok: "list_all ok_char repl \<Longrightarrow> list_all ok_char s \<Longrightarrow> list_all ok_char (sub r repl s)"
  using sub_set [of r repl s] by (auto simp: list_all_iff)

lemma collapse_ok:
  assumes "\<And>c. c \<in> set s \<Longrightarrow> \<not> is_ascii_upper c"
  shows "list_all ok_char (sub noncharacter_regex '' '' s)"
proof -
  have "ok_char c" if "c \<in> set (sub noncharacter_regex '' '' s)" for c
  proof -
    from that re_sub_ClsPlus_set [of is_noncharacter "'' ''" 0 s]
    have "c = CHR '' '' \<or> (c \<in> set s \<and> \<not> is_noncharacter c)"
      by (auto simp: sub_def noncharacter_regex_def)
    then show ?thesis
    proof
      assume "c = CHR '' ''"
      then show ?thesis by (simp add: ok_char_def)
    next
      assume "c \<in> set s \<and> \<not> is_noncharacter c"
      then show ?thesis using assms by (auto simp: is_noncharacter_def intro: ok_character)
    qed
  qed
  then show ?thesis by (simp add: list_all_iff)
qed

lemma clean_normal: "list_all ok_char (clean x) \<and> single_spaced (clean x) \<and> trimmed (clean x)"
proof -
  let ?t2 = "sub url_regex '' httpurl'' (lower x)"
  let ?t3 = "sub noncharacter_regex '' '' ?t2"
  let ?t4 = "sub email_regex '' email@address '' ?t3"
  let ?t5 = "sub mention_regex '' @user'' ?t4"
  let ?t6 = "sub retweet_regex '' '' ?t5"
  let ?t7 = "sub multspace_regex '' '' ?t6"
  have "\<not> is_ascii_upper c" if "c \<in> set ?t2" for c
    using that sub_set [of url_regex "'' httpurl''" "lower x"] httpurl_no_upper lower_no_upper
    by blast
  then have "list_all ok_char ?t3" by (rule collapse_ok)
  then have "list_all ok_char ?t4" by (rule sub_ok [OF ok_repls(1)])
  then have "list_all ok_char ?t5" by (rule sub_ok [OF ok_repls(2)])
  then have "list_all ok_char ?t6" by (rule sub_ok [OF ok_repls(3)])
  then have ok7: "list_all ok_char ?t7" by (rule sub_ok [OF ok_repls(3)])
  have ss7: "single_spaced ?t7"
    using re_sub_multspace_single [of 0 ?t6] by (simp add: sub_def multspace_regex_def)
  have c: "clean x = strip ?t7" by (rule clean_unfold)
  have "list_all ok_char (strip ?t7)" using ok7 strip_set [of ?t7] by (auto simp: list_all_iff)
  moreover have "single_spaced (strip ?t7)" using ss7 by (rule single_spaced_strip)
  moreover have "trimmed (strip ?t7)" by (rule trimmed_strip)
  ultimately show ?thesis unfolding c by blast
qed

lemma clean_fixed:
  assumes ok: "list_all ok_char y" and ss: "single_spaced y" and tr: "trimmed y"
      and url: "list_all (\<lambda>m. m = '' httpurl'') (findall url_regex y)"
      and email: "findall email_regex y = []"
      and mention: "list_all (\<lambda>m. m = '' @user'') (findall mention_regex y)"
      and retweet: "findall retweet_regex y = []"
  shows "clean y = y"
proof -
  have 1: "lower y = y" using ok by (rule lower_ok)
  have 2: "sub url_regex '' httpurl'' y = y" using url by (rule sub_same)
  have 3: "sub noncharacter_regex '' '' y = y"
    unfolding sub_def noncharacter_regex_def
    using ok ss ok_noncharacter space_noncharacter
    by (intro re_sub_collapse_id [where P = is_noncharacter]) auto
  have 4: "sub email_regex '' email@address '' y = y" using email by (rule sub_no_match)
  have 5: "sub mention_regex '' @user'' y = y" using mention by (rule sub_same)
  have 6: "sub retweet_regex '' '' y = y" using retweet by (rule sub_no_match)
  have 7: "sub multspace_regex '' '' y = y"
    unfolding sub_def multspace_regex_def
    using ok ss ok_space
    by (intro re_sub_collapse_id [where P = is_space]) auto
  have 8: "strip y = y" using tr by (rule strip_trimmed)
  show ?thesis by (simp only: clean_unfold 1 2 3 4 5 6 7 8)
qed

text \<open>
  C8, as the claim states it, fails: the email and mention substitutions run after the
  collapse of the non-characters, not before it.  For \<^verbatim>\<open>'.@b'\<close> the collapse first turns
  the dot into a space, so that the mention pattern matches and the result is
  \<^verbatim>\<open>'@user'\<close>; with the substitutions in the order of the claim the result would be
  \<^verbatim>\<open>'@b'\<close>.
\<close>

theorem clean_order_counterexample: "clean ''.@b'' \<noteq> clean_spec_order ''.@b''"
  by code_simp

text \<open>
  C8 (amended).  In \<^verbatim>\<open>clean\<close> the URL substitution runs before the collapse of the
  non-characters, and the email and mention substitutions run after it (then the retweet
  marker, the whitespace collapse and the trimming); the collapse keeps every \<^verbatim>\<open>@\<close> of
  its input, so these characters are still there when the email and mention substitutions
  run.  The result of \<^verbatim>\<open>clean\<close> on any input is that of the substitutions in this order.
\<close>

theorem clean_order:
  "clean x = strip (sub multspace_regex '' '' (sub retweet_regex '' '' (sub mention_regex '' @user''
     (sub email_regex '' email@address '' (sub noncharacter_regex '' ''
       (sub url_regex '' httpurl'' (lower x)))))))
   \<and> filter (\<lambda>c. c = CHR ''@'') (sub noncharacter_regex '' '' t) = filter (\<lambda>c. c = CHR ''@'') t"
  using clean_unfold [of x] at_survives_collapse [of 0 t]
  by (simp add: sub_def noncharacter_regex_def)

text \<open>
  C9, as the claim states it, fails: cleaning \<^verbatim>\<open>'rt rt x'\<close> removes only the first
  retweet marker (the second has lost the whitespace in front of it to the first match) and
  gives \<^verbatim>\<open>'rt x'\<close>, which cleaning again turns into \<^verbatim>\<open>'x'\<close>.
\<close>

theorem clean_idempotent_counterexample: "clean (clean ''rt rt x'') \<noteq> clean ''rt rt x''"
  by code_simp

text \<open>
  C9 (amended).  \<^verbatim>\<open>clean(clean(x)) = clean(x)\<close> for every text \<open>x\<close> whose cleaned form
  holds no match of the email pattern and no retweet marker, and in which every match of
  the URL pattern is the placeholder \<^verbatim>\<open>' httpurl'\<close> and every match of the mention
  pattern is the placeholder \<^verbatim>\<open>' @user'\<close>.
\<close>

theorem clean_idempotent_when_settled:
  assumes "list_all (\<lambda>m. m = '' httpurl'') (findall url_regex (clean x))"
      and "findall email_regex (clean x) = []"
      and "list_all (\<lambda>m. m = '' @user'') (findall mention_regex (clean x))"
      and "findall retweet_regex (clean x) = []"
  shows "clean (clean x) = clean x"
  using clean_normal [of x] assms by (intro clean_fixed) simp_all

theorem clean_idempotent_when_settled_witness:
  "list_all (\<lambda>m. m = '' httpurl'') (findall url_regex (clean ''Hello, World! see http://t.co/x''))
   \<and> findall email_regex (clean ''Hello, World! see http://t.co/x'') = []
   \<and> list_all (\<lambda>m. m = '' @user'') (findall mention_regex (clean ''Hello, World! see http://t.co/x''))
   \<and> findall retweet_regex (clean ''Hello, World! see http://t.co/x'') = []
   \<and> clean ''Hello, World! see http://t.co/x'' = ''hello world see httpurl''
   \<and> clean (clean ''Hello, World! see http://t.co/x'') = clean ''Hello, World! see http://t.co/x''"
proof -
  have c: "clean ''Hello, World! see http://t.co/x'' = ''hello world see httpurl''" by code_simp
  have u: "findall url_regex ''hello world see httpurl'' = ['' httpurl'']" by code_simp
  have e: "findall email_regex ''hello world see httpurl'' = []" by code_simp
  have m: "findall mention_regex ''hello world see httpurl'' = []" by code_simp
  have r: "findall retweet_regex ''hello world see httpurl'' = []" by code_simp
  have h1: "list_all (\<lambda>m. m = '' httpurl'') (findall url_regex (clean ''Hello, World! see http://t.co/x''))"
    unfolding c u by simp
  have h2: "findall email_regex (clean ''Hello, World! see http://t.co/x'') = []" unfolding c by (rule e)
  have h3: "list_all (\<lambda>m. m = '' @user'') (findall mention_regex (clean ''Hello, World! see http://t.co/x''))"
    unfolding c m by simp
  have h4: "findall retweet_regex (clean ''Hello, World! see http://t.co/x'') = []" unfolding c by (rule r)
  show ?thesis using clean_idempotent_when_settled [OF h1 h2 h3 h4] h1 h2 h3 h4 c by simp
qed

end
